theory Spec2Isabelle
  imports Main "HOL-Library.Sublist"
begin

section \<open>JavaScript values\<close>

text \<open>
  The values that cross the interfaces of \<^verbatim>\<open>createCoreRealtime\<close> (event names, payloads,
  what a guard returns, what stands in a route's \<^verbatim>\<open>event\<close> field). Numbers are
  integers here; an object is the list of its own properties.
\<close>

datatype jsval =
    JUndefined
  | JNull
  | JBool bool
  | JNum int
  | JStr string
  | JObj "(string \<times> jsval) list"

text \<open>JavaScript truthiness, as tested by \<^verbatim>\<open>!x\<close> and \<^verbatim>\<open>if (x)\<close>.\<close>

fun truthy :: "jsval \<Rightarrow> bool" where
  "truthy JUndefined = False"
| "truthy JNull = False"
| "truthy (JBool b) = b"
| "truthy (JNum n) = (n \<noteq> 0)"
| "truthy (JStr s) = (s \<noteq> [])"
| "truthy (JObj fs) = True"

text \<open>\<^verbatim>\<open>typeof v === 'boolean'\<close>\<close>

fun typeof_boolean :: "jsval \<Rightarrow> bool" where
  "typeof_boolean (JBool b) = True"
| "typeof_boolean v = False"

text \<open>
  The optional-chaining read \<^verbatim>\<open>v?.k\<close>: \<^verbatim>\<open>undefined\<close> on \<^verbatim>\<open>null\<close> and \<^verbatim>\<open>undefined\<close>,
  the property on an object that has it, and \<^verbatim>\<open>undefined\<close> otherwise (the wrappers of
  numbers, strings and booleans have no property \<^verbatim>\<open>allowed\<close>, \<^verbatim>\<open>reason\<close>,
  \<^verbatim>\<open>clientId\<close>, ...).
\<close>

fun opt_get :: "jsval \<Rightarrow> string \<Rightarrow> jsval" where
  "opt_get (JObj fs) k = (case map_of fs k of Some v \<Rightarrow> v | None \<Rightarrow> JUndefined)"
| "opt_get v k = JUndefined"

section \<open>Errors, effects and the message context\<close>

text \<open>
  \<open>DoubleContinuationError\<close> is the \<^verbatim>\<open>Error\<close> that \<^verbatim>\<open>next\<close> throws when it is called
  again; \<open>Thrown m\<close> is an \<^verbatim>\<open>Error\<close> with message \<open>m\<close> raised by user code; \<open>TypeError\<close>
  is what the engine raises on a read through \<^verbatim>\<open>null\<close> or a call of a non-function.
\<close>

datatype error = DoubleContinuationError | Thrown string | TypeError

datatype hook_name = BeforeStart | AfterStart | BeforeMessage | AfterMessage | OnError

text \<open>
  The reason printed for a rejecting guard: \<^verbatim>\<open>result?.reason\<close> when that is truthy, the
  fixed default text otherwise.
\<close>

datatype reason = GivenReason jsval | DefaultReason

text \<open>
  What a message's processing does that can be observed from outside, in the order it
  happens: the calls of user functions (each carries a label chosen by the user) and the
  lines written to the console.
\<close>

datatype tev =
    HookRan hook_name nat
  | GuardRan nat
  | Mark nat
  | HandlerRan nat
  | ErrorHandlerRan error
  | LogHookError hook_name error
  | LogGuardError error
  | LogGuardRejected reason
  | LogMiddlewareError error
  | LogNoHandler jsval

text \<open>
  The object built by \<^verbatim>\<open>createContext\<close>. \<open>stopped\<close> is the closure variable behind
  \<^verbatim>\<open>stop\<close> and \<^verbatim>\<open>isStopped\<close>; \<open>trace\<close> collects the effects performed so far for
  this message.
\<close>

record ctx =
  ctype :: jsval
  payload :: jsval
  applicationId :: jsval
  channel :: jsval
  remoteClient :: jsval
  emitterClientId :: jsval
  stopped :: bool
  trace :: "tev list"

definition log :: "tev \<Rightarrow> ctx \<Rightarrow> ctx" where
  "log e c = c\<lparr>trace := trace c @ [e]\<rparr>"

text \<open>
  The context as user code reads it: the trace is not a property of the JavaScript
  object, so user functions are applied to the context with the trace left out. Guards,
  hooks, handlers and the error handler are modelled by what they return or throw on
  the context they are given; of the user functions only middleware calls
  \<^verbatim>\<open>ctx.stop()\<close>.
\<close>

definition view :: "ctx \<Rightarrow> ctx" where
  "view c = c\<lparr>trace := []\<rparr>"

section \<open>Guard evaluator\<close>

text \<open>A guard is a user function of the context: it returns a value or throws.\<close>

datatype gres = Returns jsval | Throws error

record guard =
  g_label :: nat
  g_fun :: "ctx \<Rightarrow> gres"

text \<open>
  \<^verbatim>\<open>runGuards(guards, ctx)\<close>: the \<^verbatim>\<open>for ... of\<close> loop over the guards, with the
  \<^verbatim>\<open>try/catch\<close> around each call. \<open>debug\<close> is \<^verbatim>\<open>config.debug\<close>.
\<close>

fun runGuards :: "bool \<Rightarrow> guard list \<Rightarrow> ctx \<Rightarrow> bool \<times> ctx" where
  "runGuards debug [] c = (True, c)"
| "runGuards debug (g # gs) c =
     (let c1 = log (GuardRan (g_label g)) c in
      case g_fun g (view c) of
        Throws err \<Rightarrow> (False, log (LogGuardError err) c1)
      | Returns result \<Rightarrow>
          (let allowed = (if typeof_boolean result then result else opt_get result ''allowed'')
           in if \<not> truthy allowed then
                (False,
                 if debug then
                   log (LogGuardRejected
                         (if truthy (opt_get result ''reason'')
                          then GivenReason (opt_get result ''reason'') else DefaultReason)) c1
                 else c1)
              else runGuards debug gs c1))"

section \<open>Middleware chain runner\<close>

text \<open>
  A middleware is a user function \<^verbatim>\<open>async (ctx, next) => { ... }\<close>. Its body is
  modelled as a script of the statements that matter to the runner: an observable effect
  (\<open>Effect n\<close> adds \<open>Mark n\<close> to the trace), \<^verbatim>\<open>ctx.stop()\<close>, \<^verbatim>\<open>await next()\<close>,
  \<^verbatim>\<open>throw new Error(m)\<close> and \<^verbatim>\<open>try { ... } catch { ... }\<close>. Leaving the script
  is \<^verbatim>\<open>return\<close>. Every call of the continuation is awaited.
\<close>

datatype cmd =
    Effect nat
  | CtxStop
  | AwaitNext
  | Throw string
  | TryCatch "cmd list" "cmd list"

type_synonym middleware = "cmd list"

text \<open>
  The state of one \<^verbatim>\<open>runMiddleware\<close> call is the closure variable \<^verbatim>\<open>i\<close> together
  with the context. \<open>exec mws j cs (i, c)\<close> runs the rest \<open>cs\<close> of the body of
  \<^verbatim>\<open>middleware[j]\<close>, whose continuation is \<^verbatim>\<open>() => next(j + 1)\<close>; the result is the
  exception that left the body, if any, and the state reached. The \<open>AwaitNext\<close> equation
  is the body of \<^verbatim>\<open>next(j + 1)\<close>: the check \<^verbatim>\<open>j <= i\<close>, the assignment \<^verbatim>\<open>i = j\<close>,
  the read of \<^verbatim>\<open>middleware[j]\<close> (\<^verbatim>\<open>undefined\<close> out of range) and the call.
\<close>

function exec :: "middleware list \<Rightarrow> int \<Rightarrow> cmd list \<Rightarrow> int \<times> ctx \<Rightarrow> error option \<times> int \<times> ctx"
where
  "exec mws j [] s = (None, s)"
| "exec mws j (Effect n # cs) (i, c) = exec mws j cs (i, log (Mark n) c)"
| "exec mws j (CtxStop # cs) (i, c) = exec mws j cs (i, c\<lparr>stopped := True\<rparr>)"
| "exec mws j (Throw m # cs) s = (Some (Thrown m), s)"
| "exec mws j (AwaitNext # cs) (i, c) =
     (if j + 1 \<le> i then (Some DoubleContinuationError, (i, c))
      else if 0 \<le> j + 1 \<and> j + 1 < int (length mws) then
        (case exec mws (j + 1) (mws ! nat (j + 1)) (j + 1, c) of
           (None, s') \<Rightarrow> exec mws j cs s'
         | (Some e, s') \<Rightarrow> (Some e, s'))
      else exec mws j cs (j + 1, c))"
| "exec mws j (TryCatch body recover # cs) s =
     (case exec mws j body s of
        (None, s') \<Rightarrow> exec mws j cs s'
      | (Some e, s') \<Rightarrow>
          (case exec mws j recover s' of
             (None, s'') \<Rightarrow> exec mws j cs s''
           | (Some e', s'') \<Rightarrow> (Some e', s'')))"
  by pat_completeness auto
termination
  by (relation "measures [\<lambda>(mws, j, cs, s). nat (int (length mws) - j),
                          \<lambda>(mws, j, cs, s). size_list size cs]") auto

text \<open>\<^verbatim>\<open>next(j)\<close> as \<^verbatim>\<open>runMiddleware\<close> declares it.\<close>

definition next_mw :: "middleware list \<Rightarrow> int \<Rightarrow> int \<times> ctx \<Rightarrow> error option \<times> int \<times> ctx" where
  "next_mw mws j s =
     (case s of (i, c) \<Rightarrow>
        if j \<le> i then (Some DoubleContinuationError, (i, c))
        else if 0 \<le> j \<and> j < int (length mws) then exec mws j (mws ! nat j) (j, c)
        else (None, (j, c)))"

text \<open>
  \<^verbatim>\<open>runMiddleware(middleware, ctx)\<close>: \<^verbatim>\<open>i = -1\<close>, \<^verbatim>\<open>await next()\<close> inside the
  \<^verbatim>\<open>try\<close>, then the test of \<^verbatim>\<open>ctx.isStopped()\<close>; the \<^verbatim>\<open>catch\<close> logs and returns
  \<^verbatim>\<open>false\<close>.
\<close>

definition runMiddleware :: "middleware list \<Rightarrow> ctx \<Rightarrow> bool \<times> ctx" where
  "runMiddleware mws c =
     (case next_mw mws 0 (- 1, c) of
        (None, (i, c')) \<Rightarrow> if stopped c' then (False, c') else (True, c')
      | (Some err, (i, c')) \<Rightarrow> (False, log (LogMiddlewareError err) c'))"

section \<open>Route registration\<close>

text \<open>
  A handler is a user function of the context that returns or throws. The \<^verbatim>\<open>handler\<close>
  field of a route passed to \<^verbatim>\<open>registerRoutes\<close> holds such a function or any other value.
\<close>

datatype hres = Ok | Fails error

record handler_fn =
  h_label :: nat
  h_fun :: "ctx \<Rightarrow> hres"

datatype hfield = NotFunction jsval | Function handler_fn

fun hfield_truthy :: "hfield \<Rightarrow> bool" where
  "hfield_truthy (NotFunction v) = truthy v"
| "hfield_truthy (Function f) = True"

fun typeof_function :: "hfield \<Rightarrow> bool" where
  "typeof_function (Function f) = True"
| "typeof_function (NotFunction v) = False"

text \<open>
  The object passed in the list (\<open>None\<close> is an absent \<^verbatim>\<open>guards\<close> or \<^verbatim>\<open>middleware\<close>
  field, which the destructuring replaces by \<^verbatim>\<open>[]\<close>), and the object stored in the
  \<^verbatim>\<open>routes\<close> map.
\<close>

record route_in =
  rt_event :: jsval
  rt_guards :: "guard list option"
  rt_middleware :: "middleware list option"
  rt_handler :: hfield

record route =
  guards :: "guard list"
  middleware :: "middleware list"
  handler :: hfield

datatype config_error = NotAnArray | InvalidRoute | HandlerNotFunction jsval

definition default_list :: "'a list option \<Rightarrow> 'a list" where
  "default_list v = (case v of None \<Rightarrow> [] | Some xs \<Rightarrow> xs)"

text \<open>
  The loop of \<^verbatim>\<open>registerRoutes\<close>. A \<^verbatim>\<open>throw\<close> leaves the loop with the map as the
  earlier iterations have left it, so the map is returned beside the error.
\<close>

fun registerLoop :: "route_in list \<Rightarrow> (jsval \<rightharpoonup> route) \<Rightarrow> config_error option \<times> (jsval \<rightharpoonup> route)" where
  "registerLoop [] routes = (None, routes)"
| "registerLoop (r # rs) routes =
     (if \<not> truthy (rt_event r) \<or> \<not> hfield_truthy (rt_handler r) then (Some InvalidRoute, routes)
      else if \<not> typeof_function (rt_handler r) then (Some (HandlerNotFunction (rt_event r)), routes)
      else registerLoop rs
             (routes(rt_event r \<mapsto>
                \<lparr>guards = default_list (rt_guards r),
                 middleware = default_list (rt_middleware r),
                 handler = rt_handler r\<rparr>)))"

text \<open>\<^verbatim>\<open>registerRoutes(routeList)\<close>; \<open>None\<close> is an argument that is not an array.\<close>

definition registerRoutes :: "route_in list option \<Rightarrow> (jsval \<rightharpoonup> route) \<Rightarrow> config_error option \<times> (jsval \<rightharpoonup> route)" where
  "registerRoutes routeList routes =
     (case routeList of
        None \<Rightarrow> (Some NotAnArray, routes)
      | Some rs \<Rightarrow> registerLoop rs routes)"

section \<open>Lifecycle hooks\<close>

text \<open>
  A hook is a user function called with the arguments of its phase (the context, and the
  error before it for \<^verbatim>\<open>onError\<close>); it returns or throws.
\<close>

record hook =
  hk_label :: nat
  hk_fun :: "error option \<Rightarrow> ctx \<Rightarrow> hres"

fun runHookList :: "hook_name \<Rightarrow> hook list \<Rightarrow> error option \<Rightarrow> ctx \<Rightarrow> ctx" where
  "runHookList hookName [] err c = c"
| "runHookList hookName (h # hs) err c =
     (let c1 = log (HookRan hookName (hk_label h)) c in
      case hk_fun h err (view c) of
        Ok \<Rightarrow> runHookList hookName hs err c1
      | Fails e \<Rightarrow> runHookList hookName hs err (log (LogHookError hookName e) c1))"

text \<open>\<^verbatim>\<open>runHooks(hookName, ...args)\<close>\<close>

definition runHooks :: "(hook_name \<Rightarrow> hook list) \<Rightarrow> hook_name \<Rightarrow> error option \<Rightarrow> ctx \<Rightarrow> ctx" where
  "runHooks lifecycleHooks hookName err c = runHookList hookName (lifecycleHooks hookName) err c"

section \<open>Context factory and dispatcher\<close>

text \<open>
  The transport adapter, as far as the dispatcher reads it: the optional
  \<^verbatim>\<open>normalizePayload\<close>, which returns a value or throws.
\<close>

record adapter =
  normalizePayload :: "(jsval \<Rightarrow> error + jsval) option"

text \<open>
  The state of one \<^verbatim>\<open>createCoreRealtime\<close> instance that message processing reads.
  \<open>transport\<close> is \<open>None\<close> while the variable is \<^verbatim>\<open>null\<close> (before \<^verbatim>\<open>adapter\<close> and after
  \<^verbatim>\<open>reset\<close>).
\<close>

record system =
  globalMiddleware :: "middleware list"
  routes :: "jsval \<rightharpoonup> route"
  lifecycleHooks :: "hook_name \<Rightarrow> hook list"
  transport :: "adapter option"
  errorHandler :: "error \<Rightarrow> ctx \<Rightarrow> hres"
  debug :: bool

text \<open>\<^verbatim>\<open>createContext(type, fullPayload)\<close>\<close>

definition createContext :: "adapter option \<Rightarrow> jsval \<Rightarrow> jsval \<Rightarrow> error + ctx" where
  "createContext tr ty fullPayload =
     (case tr of
        None \<Rightarrow> Inl TypeError
      | Some t \<Rightarrow>
          (case (case normalizePayload t of
                   None \<Rightarrow> Inr fullPayload
                 | Some f \<Rightarrow> f fullPayload) of
             Inl e \<Rightarrow> Inl e
           | Inr normalized \<Rightarrow>
               Inr \<lparr>ctype = ty,
                    payload = opt_get normalized ''payload'',
                    applicationId = opt_get normalized ''applicationId'',
                    channel = opt_get normalized ''channel'',
                    remoteClient = opt_get normalized ''clientId'',
                    emitterClientId = opt_get normalized ''emitterClientId'',
                    stopped = False,
                    trace = []\<rparr>))"

text \<open>
  The terminal state of one message: the three of the dispatcher's state machine, and
  \<open>Escaped\<close> when an exception leaves the callback (its promise is rejected).
\<close>

datatype outcome = Done | Rejected | Errored error | Escaped error

text \<open>
  The \<^verbatim>\<open>try\<close> block of the callback that \<^verbatim>\<open>start\<close> passes to
  \<^verbatim>\<open>transport.onMessage\<close>: \<open>Inl err\<close> is an exception that reaches the \<^verbatim>\<open>catch\<close>.
\<close>

definition tryBlock :: "system \<Rightarrow> jsval \<Rightarrow> ctx \<Rightarrow> (error + outcome) \<times> ctx" where
  "tryBlock sys ty c =
     (case runMiddleware (globalMiddleware sys) c of (accepted, c1) \<Rightarrow>
        if \<not> accepted then (Inr Rejected, c1)
        else
          (case routes sys ty of
             None \<Rightarrow> (Inr Rejected, if debug sys then log (LogNoHandler ty) c1 else c1)
           | Some route \<Rightarrow>
               (case runGuards (debug sys) (guards route) c1 of (allowed, c2) \<Rightarrow>
                  if \<not> allowed then (Inr Rejected, c2)
                  else
                    (case runMiddleware (middleware route) c2 of (passed, c3) \<Rightarrow>
                       if \<not> passed then (Inr Rejected, c3)
                       else
                         (case handler route of
                            NotFunction v \<Rightarrow> (Inl TypeError, c3)
                          | Function h \<Rightarrow>
                              (case h_fun h (view c3) of
                                 Fails e \<Rightarrow> (Inl e, log (HandlerRan (h_label h)) c3)
                               | Ok \<Rightarrow>
                                   (Inr Done,
                                    runHooks (lifecycleHooks sys) AfterMessage None
                                      (log (HandlerRan (h_label h)) c3))))))))"

text \<open>
  The whole callback: \<^verbatim>\<open>createContext\<close>, the \<^verbatim>\<open>beforeMessage\<close> hooks, the \<^verbatim>\<open>try\<close>
  block, and the \<^verbatim>\<open>catch\<close> with the \<^verbatim>\<open>onError\<close> hooks and the error handler. The
  result is the terminal state and the context at the end (none when none was built).
\<close>

definition onMessage :: "system \<Rightarrow> jsval \<Rightarrow> jsval \<Rightarrow> outcome \<times> ctx option" where
  "onMessage sys ty fullPayload =
     (case createContext (transport sys) ty fullPayload of
        Inl e \<Rightarrow> (Escaped e, None)
      | Inr c0 \<Rightarrow>
          (case tryBlock sys ty (runHooks (lifecycleHooks sys) BeforeMessage None c0) of
             (Inr oc, c1) \<Rightarrow> (oc, Some c1)
           | (Inl err, c1) \<Rightarrow>
               (let c2 = log (ErrorHandlerRan err) (runHooks (lifecycleHooks sys) OnError (Some err) c1)
                in case errorHandler sys err (view c2) of
                     Ok \<Rightarrow> (Errored err, Some c2)
                   | Fails e' \<Rightarrow> (Escaped e', Some c2))))"

section \<open>Local event bus\<close>

text \<open>
  The listener registry when no custom event emitter is installed
  (\<^verbatim>\<open>customEventEmitter\<close> is \<^verbatim>\<open>null\<close>): the map \<^verbatim>\<open>eventListeners\<close> from an event name
  to the array of its callbacks. A callback is a user function, named here by a label;
  two registrations of one function carry the same label. \<open>transportOff\<close> is the
  \<^verbatim>\<open>off\<close> method of the transport, which returns or throws (\<open>None\<close> when
  \<^verbatim>\<open>typeof transport?.off\<close> is not \<^verbatim>\<open>'function'\<close>). \<open>called\<close> records the calls of
  callbacks made, in order, with the data passed.
\<close>

record bus =
  eventListeners :: "string \<rightharpoonup> nat list"
  transportOff :: "(string \<Rightarrow> nat \<Rightarrow> hres) option"
  called :: "(nat \<times> jsval) list"

text \<open>\<^verbatim>\<open>on(event, callback)\<close>\<close>

definition on :: "string \<Rightarrow> nat \<Rightarrow> bus \<Rightarrow> bus" where
  "on event callback b =
     (let callbacks = (case eventListeners b event of None \<Rightarrow> [] | Some cbs \<Rightarrow> cbs)
      in b\<lparr>eventListeners := (eventListeners b)(event \<mapsto> callbacks @ [callback])\<rparr>)"

text \<open>\<^verbatim>\<open>Array.prototype.indexOf\<close> (\<open>None\<close> is \<^verbatim>\<open>-1\<close>) and \<^verbatim>\<open>splice(idx, 1)\<close>.\<close>

fun indexOf :: "'a list \<Rightarrow> 'a \<Rightarrow> nat option" where
  "indexOf [] x = None"
| "indexOf (y # ys) x = (if y = x then Some 0 else map_option Suc (indexOf ys x))"

definition splice1 :: "'a list \<Rightarrow> nat \<Rightarrow> 'a list" where
  "splice1 xs idx = take idx xs @ drop (Suc idx) xs"

text \<open>
  \<^verbatim>\<open>off(event, callback)\<close>: the early return for an event without an entry, the
  removal of the first occurrence of the callback, and then the notification
  \<^verbatim>\<open>transport.off(event, callback)\<close> when the transport has that method. An exception
  of the notification leaves \<^verbatim>\<open>off\<close>, after the registry has been changed.
\<close>

definition off :: "string \<Rightarrow> nat \<Rightarrow> bus \<Rightarrow> error option \<times> bus" where
  "off event callback b =
     (case eventListeners b event of
        None \<Rightarrow> (None, b)
      | Some callbacks \<Rightarrow>
          (let b1 = (case indexOf callbacks callback of
                       None \<Rightarrow> b
                     | Some idx \<Rightarrow>
                         b\<lparr>eventListeners := (eventListeners b)(event \<mapsto> splice1 callbacks idx)\<rparr>)
           in case transportOff b of
                None \<Rightarrow> (None, b1)
              | Some notify \<Rightarrow>
                  (case notify event callback of
                     Ok \<Rightarrow> (None, b1)
                   | Fails err \<Rightarrow> (Some err, b1))))"

text \<open>
  What a callback does to the bus while it runs: it may remove or add listeners, and it
  may throw. \<open>run_callback\<close> runs the body of one callback; an exception of \<^verbatim>\<open>off\<close>
  leaves the callback.
\<close>

datatype lact = Off string nat | On string nat | ThrowL string

fun run_callback :: "lact list \<Rightarrow> bus \<Rightarrow> error option \<times> bus" where
  "run_callback [] b = (None, b)"
| "run_callback (Off e l # acts) b =
     (case off e l b of
        (None, b') \<Rightarrow> run_callback acts b'
      | (Some err, b') \<Rightarrow> (Some err, b'))"
| "run_callback (On e l # acts) b = run_callback acts (on e l b)"
| "run_callback (ThrowL m # acts) b = (Some (Thrown m), b)"

text \<open>
  The loop \<^verbatim>\<open>for (const cb of callbacks) cb(data)\<close> of \<^verbatim>\<open>internalEmit\<close>. The array
  iterator keeps a position \<open>k\<close> into the array, which is the one stored in the map and
  is changed in place by \<^verbatim>\<open>on\<close> and \<^verbatim>\<open>off\<close>; an event without an entry gives a fresh
  empty array. \<open>code\<close> gives the body of each callback. The loop need not end (a callback
  may keep adding listeners): then the result is \<open>None\<close>. Otherwise it is the exception
  that left the loop, if any, and the bus reached.
\<close>

partial_function (option) emitLoop ::
  "(nat \<Rightarrow> lact list) \<Rightarrow> string \<Rightarrow> jsval \<Rightarrow> nat \<Rightarrow> bus \<Rightarrow> (error option \<times> bus) option" where
  "emitLoop code event data k b =
     (let callbacks = (case eventListeners b event of None \<Rightarrow> [] | Some cbs \<Rightarrow> cbs) in
      if k < length callbacks then
        (case run_callback (code (callbacks ! k)) (b\<lparr>called := called b @ [(callbacks ! k, data)]\<rparr>) of
           (Some err, b') \<Rightarrow> Some (Some err, b')
         | (None, b') \<Rightarrow> emitLoop code event data (k + 1) b')
      else Some (None, b))"

text \<open>\<^verbatim>\<open>internalEmit(event, data)\<close>, which is also \<^verbatim>\<open>emit\<close> and \<^verbatim>\<open>ctx.emit\<close>.\<close>

definition internalEmit :: "(nat \<Rightarrow> lact list) \<Rightarrow> string \<Rightarrow> jsval \<Rightarrow> bus \<Rightarrow> (error option \<times> bus) option" where
  "internalEmit code event data b = emitLoop code event data 0 b"

section \<open>Notions used to state the properties\<close>

subsection \<open>Guards\<close>

text \<open>
  A guard result that allows: the boolean \<^verbatim>\<open>true\<close>, or an object whose \<^verbatim>\<open>allowed\<close>
  property is truthy. A guard passes on a context when it returns such a result there.
\<close>

fun allowing :: "jsval \<Rightarrow> bool" where
  "allowing (JBool b) = b"
| "allowing (JObj fs) = (case map_of fs ''allowed'' of Some a \<Rightarrow> truthy a | None \<Rightarrow> False)"
| "allowing v = False"

fun guard_passes :: "gres \<Rightarrow> bool" where
  "guard_passes (Returns v) = allowing v"
| "guard_passes (Throws e) = False"

text \<open>
  The console lines of a guard that does not pass.
\<close>

fun reject_log :: "bool \<Rightarrow> gres \<Rightarrow> tev list" where
  "reject_log dbg (Throws e) = [LogGuardError e]"
| "reject_log dbg (Returns v) =
     (if dbg then
        [LogGuardRejected (if truthy (opt_get v ''reason'') then GivenReason (opt_get v ''reason'')
                           else DefaultReason)]
      else [])"

subsection \<open>Routes\<close>

text \<open>
  A route that registration accepts: a truthy (for a string, non-empty) event type and a
  function as handler; the entry stored for it; the table after \<^verbatim>\<open>routes.set\<close> for it;
  and a table in which every key is truthy and every handler a function.
\<close>

definition valid_route :: "route_in \<Rightarrow> bool" where
  "valid_route r = (truthy (rt_event r) \<and> typeof_function (rt_handler r))"

definition stored_route :: "route_in \<Rightarrow> route" where
  "stored_route r =
     \<lparr>guards = default_list (rt_guards r),
      middleware = default_list (rt_middleware r),
      handler = rt_handler r\<rparr>"

definition insert_route :: "(jsval \<rightharpoonup> route) \<Rightarrow> route_in \<Rightarrow> (jsval \<rightharpoonup> route)" where
  "insert_route table r = table(rt_event r \<mapsto> stored_route r)"

definition table_ok :: "(jsval \<rightharpoonup> route) \<Rightarrow> bool" where
  "table_ok table = (\<forall>k r. table k = Some r \<longrightarrow> truthy k \<and> typeof_function (handler r))"

subsection \<open>Middleware and dispatch\<close>

text \<open>
  The result of a piece of middleware code, with the context marked as stopped.
\<close>

definition with_stop :: "error option \<times> int \<times> ctx \<Rightarrow> error option \<times> int \<times> ctx" where
  "with_stop r = (case r of (e, (i, c)) \<Rightarrow> (e, (i, c\<lparr>stopped := True\<rparr>)))"

text \<open>
  \<open>only P c\<close>: every effect performed so far for the message satisfies \<open>P\<close>.
  \<open>error_path\<close> holds of the effects of the \<^verbatim>\<open>catch\<close> block of the dispatcher (the
  \<^verbatim>\<open>onError\<close> hooks and the error handler), \<open>after_route\<close> of the handler call and the
  \<^verbatim>\<open>afterMessage\<close> hooks.
\<close>

definition only :: "(tev \<Rightarrow> bool) \<Rightarrow> ctx \<Rightarrow> bool" where
  "only P c = list_all P (trace c)"

fun error_path :: "tev \<Rightarrow> bool" where
  "error_path (HookRan n l) = (n = OnError)"
| "error_path (LogHookError n e) = (n = OnError)"
| "error_path (ErrorHandlerRan e) = True"
| "error_path ev = False"

fun after_route :: "tev \<Rightarrow> bool" where
  "after_route (HandlerRan l) = True"
| "after_route (HookRan n l) = (n = AfterMessage)"
| "after_route (LogHookError n e) = (n = AfterMessage)"
| "after_route ev = False"


text \<open>
  The callback as a step on the instance. Its body (the context factory, the runners and
  the \<^verbatim>\<open>try/catch\<close>) reads \<^verbatim>\<open>transport\<close>, \<^verbatim>\<open>globalMiddleware\<close>, \<^verbatim>\<open>routes\<close>,
  \<^verbatim>\<open>lifecycleHooks\<close>, \<^verbatim>\<open>errorHandler\<close> and \<^verbatim>\<open>config\<close> and assigns to none of them;
  the context and the counter of the chain runner are created anew at each call. \<open>serve\<close>
  is the transport calling the callback once for each inbound message, in order.
\<close>

definition callback :: "system \<Rightarrow> jsval \<times> jsval \<Rightarrow> (outcome \<times> ctx option) \<times> system" where
  "callback sys m = (onMessage sys (fst m) (snd m), sys)"


subsection \<open>Event bus\<close>

text \<open>
  The array that \<^verbatim>\<open>internalEmit\<close> iterates for an event, and the calls of a list of
  callbacks with the data \<open>d\<close>, in order.
\<close>

definition listeners_of :: "bus \<Rightarrow> string \<Rightarrow> nat list" where
  "listeners_of b event = (case eventListeners b event of None \<Rightarrow> [] | Some cbs \<Rightarrow> cbs)"

definition calls :: "jsval \<Rightarrow> nat list \<Rightarrow> (nat \<times> jsval) list" where
  "calls d cbs = map (\<lambda>cb. (cb, d)) cbs"

text \<open>
  The transport's \<^verbatim>\<open>off\<close>, when it has one, returns on the event and callback.
\<close>

definition notify_ok :: "(string \<Rightarrow> nat \<Rightarrow> hres) option \<Rightarrow> string \<Rightarrow> nat \<Rightarrow> bool" where
  "notify_ok toff e l = (case toff of None \<Rightarrow> True | Some notify \<Rightarrow> notify e l = Ok)"

text \<open>
  A callback body is harmless for an event and the listeners \<open>cbs\<close> when it does not
  throw (no \<^verbatim>\<open>throw\<close> of its own, no throwing notification inside \<^verbatim>\<open>off\<close>) and leaves
  the listeners \<open>cbs\<close> of the event in place: it adds listeners to other events only, and
  what it removes belongs to another event or is not in \<open>cbs\<close>.
\<close>

fun harmless_act :: "(string \<Rightarrow> nat \<Rightarrow> hres) option \<Rightarrow> string \<Rightarrow> nat list \<Rightarrow> lact \<Rightarrow> bool" where
  "harmless_act toff event cbs (Off e l) = (notify_ok toff e l \<and> (e \<noteq> event \<or> l \<notin> set cbs))"
| "harmless_act toff event cbs (On e l) = (e \<noteq> event)"
| "harmless_act toff event cbs (ThrowL m) = False"

definition harmless :: "(string \<Rightarrow> nat \<Rightarrow> hres) option \<Rightarrow> string \<Rightarrow> nat list \<Rightarrow> lact list \<Rightarrow> bool" where
  "harmless toff event cbs body = list_all (harmless_act toff event cbs) body"


section \<open>Example values\<close>

text \<open>
  A context as \<^verbatim>\<open>createContext\<close> builds it from \<open>ex_payload\<close>, and user functions
  with a fixed result: guards, hooks, handlers.
\<close>

definition ex_payload :: jsval where
  "ex_payload = JObj [(''payload'', JObj []), (''clientId'', JStr ''client-1'')]"

definition ex_ctx :: ctx where
  "ex_ctx = \<lparr>ctype = JStr ''secure.action'', payload = JObj [], applicationId = JUndefined,
             channel = JUndefined, remoteClient = JStr ''client-1'', emitterClientId = JUndefined,
             stopped = False, trace = []\<rparr>"

definition ex_guard :: "nat \<Rightarrow> gres \<Rightarrow> guard" where
  "ex_guard l r = \<lparr>g_label = l, g_fun = (\<lambda>c. r)\<rparr>"

definition ex_hook :: "nat \<Rightarrow> hres \<Rightarrow> hook" where
  "ex_hook l r = \<lparr>hk_label = l, hk_fun = (\<lambda>e c. r)\<rparr>"

definition ex_handler :: "nat \<Rightarrow> hres \<Rightarrow> hfield" where
  "ex_handler l r = Function \<lparr>h_label = l, h_fun = (\<lambda>c. r)\<rparr>"

text \<open>
  Routes, and an instance with one \<^verbatim>\<open>beforeMessage\<close>, one \<^verbatim>\<open>afterMessage\<close> and one
  \<^verbatim>\<open>onError\<close> hook, a transport without \<^verbatim>\<open>normalizePayload\<close>, one route for the
  event \<^verbatim>\<open>secure.action\<close> and an error handler with a fixed result; \<open>ex_null_system\<close>
  is an instance whose transport is \<^verbatim>\<open>null\<close>.
\<close>

definition ex_guards :: "guard list" where
  "ex_guards =
     [ex_guard 21 (Returns (JBool True)),
      ex_guard 22 (Returns (JObj [(''allowed'', JBool False), (''reason'', JStr ''no-perm'')])),
      ex_guard 23 (Returns (JBool True))]"

definition ex_route :: route where
  "ex_route = \<lparr>guards = ex_guards, middleware = [[Effect 5, AwaitNext]], handler = ex_handler 7 Ok\<rparr>"

definition ex_open_route :: "middleware list \<Rightarrow> hres \<Rightarrow> route" where
  "ex_open_route rm r = \<lparr>guards = [], middleware = rm, handler = ex_handler 17 r\<rparr>"


definition ex_route_in :: "jsval \<Rightarrow> hfield \<Rightarrow> route_in" where
  "ex_route_in ev h = \<lparr>rt_event = ev, rt_guards = None, rt_middleware = None, rt_handler = h\<rparr>"

definition ex_hooks :: "hook_name \<Rightarrow> hook list" where
  "ex_hooks n =
     (case n of
        BeforeMessage \<Rightarrow> [ex_hook 10 Ok]
      | AfterMessage \<Rightarrow> [ex_hook 20 Ok]
      | OnError \<Rightarrow> [ex_hook 30 Ok]
      | _ \<Rightarrow> [])"

definition ex_system :: "middleware list \<Rightarrow> route \<Rightarrow> hres \<Rightarrow> system" where
  "ex_system gm rt eh =
     \<lparr>globalMiddleware = gm,
      routes = [JStr ''secure.action'' \<mapsto> rt],
      lifecycleHooks = ex_hooks,
      transport = Some \<lparr>normalizePayload = None\<rparr>,
      errorHandler = (\<lambda>e c. eh),
      debug = False\<rparr>"


text \<open>
  A bus with listeners for the event \<^verbatim>\<open>evt\<close>; callbacks of which the one labelled \<open>a\<close>
  removes the listener \<open>x\<close>; callbacks of which the one labelled \<open>t\<close> throws.
\<close>

definition ex_bus :: "nat list \<Rightarrow> bus" where
  "ex_bus ls = \<lparr>eventListeners = [''evt'' \<mapsto> ls], transportOff = None, called = []\<rparr>"


definition ex_thrower :: "nat \<Rightarrow> nat \<Rightarrow> lact list" where
  "ex_thrower t n = (if n = t then [ThrowL ''boom''] else [])"


section \<open>Helper lemmas\<close>

lemma view_log [simp]: "view (log e c) = view c"
  by (simp add: view_def log_def)

lemma view_trace [simp]: "view (c\<lparr>trace := t\<rparr>) = view c"
  by (simp add: view_def)

lemma allowed_expr: "truthy (if typeof_boolean v then v else opt_get v ''allowed'') = allowing v"
  by (cases v) (auto split: option.splits)

lemma allowing_iff:
  "allowing v \<longleftrightarrow> (v = JBool True \<or> (\<exists>fs a. v = JObj fs \<and> map_of fs ''allowed'' = Some a \<and> truthy a))"
  by (cases v) (auto split: option.splits)

lemma runGuards_step:
  "runGuards dbg (g # gs) c =
     (if guard_passes (g_fun g (view c)) then runGuards dbg gs (log (GuardRan (g_label g)) c)
      else (False, c\<lparr>trace := trace c @ GuardRan (g_label g) # reject_log dbg (g_fun g (view c))\<rparr>))"
  by (cases "g_fun g (view c)") (simp_all add: allowed_expr Let_def log_def)

declare runGuards.simps(2) [simp del]

lemma runGuards_passing_prefix:
  "\<forall>g \<in> set pre. guard_passes (g_fun g (view c)) \<Longrightarrow>
   runGuards dbg (pre @ rest) c =
   runGuards dbg rest (c\<lparr>trace := trace c @ map (\<lambda>g. GuardRan (g_label g)) pre\<rparr>)"
proof (induction pre arbitrary: c)
  case Nil
  then show ?case by simp
next
  case (Cons g pre)
  have "\<forall>g' \<in> set pre. guard_passes (g_fun g' (view (log (GuardRan (g_label g)) c)))"
    using Cons.prems by simp
  from Cons.IH [OF this] Cons.prems show ?case
    by (simp add: runGuards_step log_def)
qed

lemma runGuards_first_reject:
  assumes "\<forall>g' \<in> set pre. guard_passes (g_fun g' (view c))"
    and "\<not> guard_passes (g_fun g (view c))"
  shows "runGuards dbg (pre @ g # post) c =
     (False, c\<lparr>trace := trace c @ map (\<lambda>g. GuardRan (g_label g)) (pre @ [g])
                              @ reject_log dbg (g_fun g (view c))\<rparr>)"
  using assms by (simp add: runGuards_passing_prefix runGuards_step)

lemma runGuards_all_pass:
  assumes "\<forall>g' \<in> set gs. guard_passes (g_fun g' (view c))"
  shows "runGuards dbg gs c = (True, c\<lparr>trace := trace c @ map (\<lambda>g. GuardRan (g_label g)) gs\<rparr>)"
  using runGuards_passing_prefix [OF assms, of dbg "[]"] by simp

section \<open>Guard results (C9)\<close>

text \<open>
  C9. When a guard returns the value \<open>v\<close>, the evaluator lets the message pass that guard
  exactly when \<open>v\<close> is the boolean \<^verbatim>\<open>true\<close> or an object whose \<^verbatim>\<open>allowed\<close> property is
  truthy. A value that is neither a boolean nor an object with an \<^verbatim>\<open>allowed\<close> property
  rejects the message, whatever guards follow; so do in particular every number (such as
  1) and every string (such as a non-empty one).
\<close>

theorem guard_result_allowing:
  "g_fun g (view c) = Returns v \<Longrightarrow>
     (fst (runGuards dbg [g] c) \<longleftrightarrow>
        (v = JBool True \<or> (\<exists>fs a. v = JObj fs \<and> map_of fs ''allowed'' = Some a \<and> truthy a)))
   \<and> (\<not> typeof_boolean v \<and> (\<forall>fs. v = JObj fs \<longrightarrow> map_of fs ''allowed'' = None)
        \<longrightarrow> \<not> fst (runGuards dbg (g # gs) c))
   \<and> ((\<exists>n. v = JNum n) \<or> (\<exists>s. v = JStr s) \<longrightarrow> \<not> fst (runGuards dbg (g # gs) c))"
proof (intro conjI impI)
  assume r: "g_fun g (view c) = Returns v"
  show "fst (runGuards dbg [g] c) \<longleftrightarrow>
        (v = JBool True \<or> (\<exists>fs a. v = JObj fs \<and> map_of fs ''allowed'' = Some a \<and> truthy a))"
    using r by (simp add: runGuards_step allowing_iff)
next
  assume r: "g_fun g (view c) = Returns v"
    and n: "\<not> typeof_boolean v \<and> (\<forall>fs. v = JObj fs \<longrightarrow> map_of fs ''allowed'' = None)"
  from n have "\<not> allowing v" by (cases v) auto
  with r show "\<not> fst (runGuards dbg (g # gs) c)"
    by (simp add: runGuards_step)
next
  assume r: "g_fun g (view c) = Returns v" and n: "(\<exists>n. v = JNum n) \<or> (\<exists>s. v = JStr s)"
  from n have "\<not> allowing v" by auto
  with r show "\<not> fst (runGuards dbg (g # gs) c)"
    by (simp add: runGuards_step)
qed

theorem guard_result_allowing_witness:
  "g_fun (ex_guard 1 (Returns (JNum 1))) (view ex_ctx) = Returns (JNum 1)
   \<and> \<not> fst (runGuards False [ex_guard 1 (Returns (JNum 1))] ex_ctx)
   \<and> \<not> fst (runGuards False [ex_guard 1 (Returns (JNum 1)), ex_guard 2 (Returns (JBool True))] ex_ctx)"
proof -
  have h: "g_fun (ex_guard 1 (Returns (JNum 1))) (view ex_ctx) = Returns (JNum 1)"
    by (simp add: ex_guard_def)
  from guard_result_allowing [OF h, of False "[ex_guard 2 (Returns (JBool True))]"] h
  show ?thesis by simp
qed

lemma ex_createContext:
  "createContext (transport (ex_system gm rt eh)) (JStr ''secure.action'') ex_payload = Inr ex_ctx"
  by (simp add: createContext_def ex_system_def ex_payload_def ex_ctx_def)

lemma ex_before: "runHooks (lifecycleHooks (ex_system gm rt eh)) BeforeMessage None ex_ctx = ex_ctx\<lparr>trace := [HookRan BeforeMessage 10]\<rparr>"
  by (simp add: runHooks_def ex_system_def ex_hooks_def ex_hook_def ex_ctx_def log_def)

lemma ex_global:
  "runMiddleware [[Effect 11, AwaitNext, Effect 12]] (ex_ctx\<lparr>trace := [HookRan BeforeMessage 10]\<rparr>)
     = (True, ex_ctx\<lparr>trace := [HookRan BeforeMessage 10, Mark 11, Mark 12]\<rparr>)"
  by (simp add: runMiddleware_def next_mw_def ex_ctx_def log_def)

section \<open>Guard evaluator (C7)\<close>

text \<open>
  C7. The guards are evaluated in list order. When every guard of \<open>pre\<close> passes on the
  context, \<^verbatim>\<open>runGuards\<close> over \<open>pre\<close> reports \<^verbatim>\<open>true\<close> after evaluating each of them
  once, in order. When the next guard \<open>g\<close> does not pass (it returns a disallowing result,
  or it throws), \<^verbatim>\<open>runGuards\<close> over \<open>pre @ g # post\<close> reports \<^verbatim>\<open>false\<close>; the guards
  evaluated are those of \<open>pre\<close> and \<open>g\<close>, none of \<open>post\<close>; an exception of \<open>g\<close> is logged
  and is not propagated. In the dispatcher, the message then ends in \<open>Rejected\<close> with
  the context as the guard evaluation left it: no route middleware, handler or hook runs
  after the rejecting guard.
\<close>

theorem guards_in_order:
  assumes "\<forall>g' \<in> set pre. guard_passes (g_fun g' (view c))"
  shows "runGuards dbg pre c = (True, c\<lparr>trace := trace c @ map (\<lambda>g. GuardRan (g_label g)) pre\<rparr>)
    \<and> (\<not> guard_passes (g_fun g (view c)) \<longrightarrow>
          runGuards dbg (pre @ g # post) c =
            (False, c\<lparr>trace := trace c @ map (\<lambda>g. GuardRan (g_label g)) (pre @ [g])
                                     @ reject_log dbg (g_fun g (view c))\<rparr>))
    \<and> (g_fun g (view c) = Throws e \<longrightarrow>
          runGuards dbg (pre @ g # post) c =
            (False, c\<lparr>trace := trace c @ map (\<lambda>g. GuardRan (g_label g)) (pre @ [g])
                                     @ [LogGuardError e]\<rparr>))
    \<and> (\<not> guard_passes (g_fun g (view c))
        \<and> createContext (transport sys) ty pl = Inr c0
        \<and> runMiddleware (globalMiddleware sys) (runHooks (lifecycleHooks sys) BeforeMessage None c0) = (True, c)
        \<and> routes sys ty = Some rt \<and> guards rt = pre @ g # post \<longrightarrow>
          onMessage sys ty pl =
            (Rejected, Some (c\<lparr>trace := trace c @ map (\<lambda>g. GuardRan (g_label g)) (pre @ [g])
                                     @ reject_log (debug sys) (g_fun g (view c))\<rparr>)))"
proof (intro conjI impI)
  show "runGuards dbg pre c = (True, c\<lparr>trace := trace c @ map (\<lambda>g. GuardRan (g_label g)) pre\<rparr>)"
    by (rule runGuards_all_pass [OF assms])
next
  assume "\<not> guard_passes (g_fun g (view c))"
  then show "runGuards dbg (pre @ g # post) c =
            (False, c\<lparr>trace := trace c @ map (\<lambda>g. GuardRan (g_label g)) (pre @ [g])
                                     @ reject_log dbg (g_fun g (view c))\<rparr>)"
    by (rule runGuards_first_reject [OF assms])
next
  assume t: "g_fun g (view c) = Throws e"
  then have "\<not> guard_passes (g_fun g (view c))" by simp
  from runGuards_first_reject [OF assms this, of dbg post] t
  show "runGuards dbg (pre @ g # post) c =
            (False, c\<lparr>trace := trace c @ map (\<lambda>g. GuardRan (g_label g)) (pre @ [g])
                                     @ [LogGuardError e]\<rparr>)"
    by simp
next
  assume h: "\<not> guard_passes (g_fun g (view c))
        \<and> createContext (transport sys) ty pl = Inr c0
        \<and> runMiddleware (globalMiddleware sys) (runHooks (lifecycleHooks sys) BeforeMessage None c0) = (True, c)
        \<and> routes sys ty = Some rt \<and> guards rt = pre @ g # post"
  then have rej: "runGuards (debug sys) (guards rt) c =
            (False, c\<lparr>trace := trace c @ map (\<lambda>g. GuardRan (g_label g)) (pre @ [g])
                                     @ reject_log (debug sys) (g_fun g (view c))\<rparr>)"
    using runGuards_first_reject [OF assms, of g "debug sys" post] by simp
  from h rej show "onMessage sys ty pl =
            (Rejected, Some (c\<lparr>trace := trace c @ map (\<lambda>g. GuardRan (g_label g)) (pre @ [g])
                                     @ reject_log (debug sys) (g_fun g (view c))\<rparr>))"
    by (simp add: onMessage_def tryBlock_def)
qed

theorem guards_in_order_witness:
  "onMessage (ex_system [[Effect 11, AwaitNext, Effect 12]] ex_route Ok) (JStr ''secure.action'') ex_payload =
     (Rejected, Some (ex_ctx\<lparr>trace := [HookRan BeforeMessage 10, Mark 11, Mark 12, GuardRan 21, GuardRan 22]\<rparr>))
   \<and> runGuards False ex_guards ex_ctx = (False, ex_ctx\<lparr>trace := [GuardRan 21, GuardRan 22]\<rparr>)
   \<and> runGuards False [ex_guard 21 (Returns (JBool True))] ex_ctx = (True, ex_ctx\<lparr>trace := [GuardRan 21]\<rparr>)
   \<and> runGuards False [ex_guard 21 (Returns (JBool True)), ex_guard 24 (Throws (Thrown ''boom'')),
                       ex_guard 23 (Returns (JBool True))] ex_ctx
       = (False, ex_ctx\<lparr>trace := [GuardRan 21, GuardRan 24, LogGuardError (Thrown ''boom'')]\<rparr>)"
proof -
  let ?sys = "ex_system [[Effect 11, AwaitNext, Effect 12]] ex_route Ok"
  let ?pre = "[ex_guard 21 (Returns (JBool True))]"
  let ?g = "ex_guard 22 (Returns (JObj [(''allowed'', JBool False), (''reason'', JStr ''no-perm'')]))"
  let ?post = "[ex_guard 23 (Returns (JBool True))]"
  let ?c = "ex_ctx\<lparr>trace := [HookRan BeforeMessage 10, Mark 11, Mark 12]\<rparr>"
  have pre: "\<forall>g' \<in> set ?pre. guard_passes (g_fun g' (view c))" for c
    by (simp add: ex_guard_def)
  have rej: "\<not> guard_passes (g_fun ?g (view c))" for c
    by (simp add: ex_guard_def)
  have cc: "createContext (transport ?sys) (JStr ''secure.action'') ex_payload = Inr ex_ctx"
    by (rule ex_createContext)
  have gm: "runMiddleware (globalMiddleware ?sys) (runHooks (lifecycleHooks ?sys) BeforeMessage None ex_ctx) = (True, ?c)"
    by (simp add: ex_before) (simp add: ex_system_def ex_global)
  have rt: "routes ?sys (JStr ''secure.action'') = Some ex_route \<and> guards ex_route = ?pre @ ?g # ?post"
    by (simp add: ex_system_def ex_route_def ex_guards_def)
  have tr: "trace ex_ctx = []" by (simp add: ex_ctx_def)
  have dbg: "debug ?sys = False" by (simp add: ex_system_def)
  from guards_in_order [where pre = ?pre and c = ?c and g = ?g and post = ?post and sys = ?sys
      and ty = "JStr ''secure.action''" and pl = ex_payload and ?c0.0 = ex_ctx and rt = ex_route, OF pre]
    rej [of ?c] cc gm rt
  have 1: "onMessage ?sys (JStr ''secure.action'') ex_payload =
     (Rejected, Some (ex_ctx\<lparr>trace := [HookRan BeforeMessage 10, Mark 11, Mark 12, GuardRan 21, GuardRan 22]\<rparr>))"
    by (simp add: dbg) (simp add: ex_guard_def)
  from guards_in_order [where pre = ?pre and c = ex_ctx and g = ?g and post = ?post and dbg = False, OF pre]
    rej [of ex_ctx]
  have 2: "runGuards False ex_guards ex_ctx = (False, ex_ctx\<lparr>trace := [GuardRan 21, GuardRan 22]\<rparr>)"
    by (simp add: ex_guards_def tr) (simp add: ex_guard_def)
  from guards_in_order [where pre = ?pre and c = ex_ctx and dbg = False, OF pre]
  have 3: "runGuards False ?pre ex_ctx = (True, ex_ctx\<lparr>trace := [GuardRan 21]\<rparr>)"
    by (simp add: tr) (simp add: ex_guard_def)
  have thr: "g_fun (ex_guard 24 (Throws (Thrown ''boom''))) (view ex_ctx) = Throws (Thrown ''boom'')"
    by (simp add: ex_guard_def)
  from guards_in_order [where pre = ?pre and c = ex_ctx and g = "ex_guard 24 (Throws (Thrown ''boom''))"
      and post = ?post and dbg = False and e = "Thrown ''boom''", OF pre] thr
  have 4: "runGuards False [ex_guard 21 (Returns (JBool True)), ex_guard 24 (Throws (Thrown ''boom'')),
                       ex_guard 23 (Returns (JBool True))] ex_ctx
       = (False, ex_ctx\<lparr>trace := [GuardRan 21, GuardRan 24, LogGuardError (Thrown ''boom'')]\<rparr>)"
    by (simp add: tr) (simp add: ex_guard_def)
  from 1 2 3 4 show ?thesis by blast
qed

section \<open>Route registration (C8, C10)\<close>

lemma typeof_function_truthy: "typeof_function h \<Longrightarrow> hfield_truthy h"
  by (cases h) auto

lemma registerLoop_step:
  "registerLoop (r # rs) table =
     (if valid_route r then registerLoop rs (insert_route table r)
      else (Some (if \<not> truthy (rt_event r) \<or> \<not> hfield_truthy (rt_handler r) then InvalidRoute
                  else HandlerNotFunction (rt_event r)), table))"
  using typeof_function_truthy [of "rt_handler r"]
  by (auto simp: valid_route_def insert_route_def stored_route_def)

declare registerLoop.simps(2) [simp del]

lemma registerLoop_valid_prefix:
  "\<forall>r \<in> set pre. valid_route r \<Longrightarrow>
   registerLoop (pre @ rest) table = registerLoop rest (foldl insert_route table pre)"
  by (induction pre arbitrary: table) (simp_all add: registerLoop_step)

lemma registerLoop_first_invalid:
  assumes "\<forall>r \<in> set pre. valid_route r" and "\<not> valid_route r"
  shows "registerLoop (pre @ r # post) table =
    (Some (if \<not> truthy (rt_event r) \<or> \<not> hfield_truthy (rt_handler r) then InvalidRoute
           else HandlerNotFunction (rt_event r)), foldl insert_route table pre)"
  using assms by (simp add: registerLoop_valid_prefix registerLoop_step)

lemma registerLoop_all_valid:
  assumes "\<forall>r \<in> set rs. valid_route r"
  shows "registerLoop rs table = (None, foldl insert_route table rs)"
  using registerLoop_valid_prefix [OF assms, of "[]" table] by simp

lemma registerLoop_error_iff:
  "fst (registerLoop rs table) = None \<longleftrightarrow> (\<forall>r \<in> set rs. valid_route r)"
  by (induction rs arbitrary: table) (auto simp: registerLoop_step)

lemma insert_route_ok: "table_ok table \<Longrightarrow> valid_route r \<Longrightarrow> table_ok (insert_route table r)"
  by (auto simp: table_ok_def insert_route_def valid_route_def stored_route_def)

lemma registerLoop_table_ok: "table_ok table \<Longrightarrow> table_ok (snd (registerLoop rs table))"
  by (induction rs arbitrary: table) (auto simp: registerLoop_step insert_route_ok)

lemma insert_route_apply:
  "insert_route table r k = (if k = rt_event r then Some (stored_route r) else table k)"
  by (simp add: insert_route_def)

lemma foldl_insert_dom:
  "dom (foldl insert_route table rs) = dom table \<union> rt_event ` set rs"
  by (induction rs arbitrary: table) (auto simp: insert_route_def)

lemma foldl_insert_other:
  "k \<notin> rt_event ` set rs \<Longrightarrow> foldl insert_route table rs k = table k"
  by (induction rs arbitrary: table) (auto simp: insert_route_def)

lemma foldl_insert_last:
  "r \<in> set rs \<Longrightarrow> distinct (map rt_event rs) \<Longrightarrow>
   foldl insert_route table rs (rt_event r) = Some (stored_route r)"
proof (induction rs arbitrary: table)
  case Nil
  then show ?case by simp
next
  case (Cons x rs)
  show ?case
  proof (cases "r \<in> set rs")
    case True
    with Cons show ?thesis by simp
  next
    case False
    with Cons.prems have x: "x = r" and n: "rt_event r \<notin> rt_event ` set rs" by auto
    have "foldl insert_route table (x # rs) (rt_event r)
            = foldl insert_route (insert_route table x) rs (rt_event r)"
      by (simp only: foldl_Cons)
    also have "\<dots> = insert_route table x (rt_event r)"
      using n by (rule foldl_insert_other)
    also have "\<dots> = Some (stored_route r)"
      using x by (simp add: insert_route_def)
    finally show ?thesis .
  qed
qed

text \<open>
  C8. A route list that contains a route \<open>bad\<close> without a truthy event type or without a
  function as handler (in particular an absent or empty event type, or a handler that is
  absent or not a function) makes \<^verbatim>\<open>registerRoutes\<close> itself raise a configuration
  error. A route \<open>r\<close> with a non-empty event type and a function handler is accepted and
  stored under its event type, and a list of such routes is stored entry by entry. The
  check happens at registration: when the table held only valid routes before the call,
  it holds only valid routes after it, whether the call failed or not, so dispatch never
  meets a route without a function handler.
\<close>

theorem registration_validates:
  "(\<not> valid_route bad \<and> bad \<in> set rs \<longrightarrow> fst (registerRoutes (Some rs) table) \<noteq> None)
   \<and> ((rt_event bad = JUndefined \<or> rt_event bad = JStr [] \<or> (\<exists>v. rt_handler bad = NotFunction v))
        \<and> bad \<in> set rs \<longrightarrow> fst (registerRoutes (Some rs) table) \<noteq> None)
   \<and> (valid_route r \<longrightarrow>
        registerRoutes (Some [r]) table = (None, table(rt_event r \<mapsto> stored_route r)))
   \<and> ((\<forall>x \<in> set good. valid_route x) \<longrightarrow>
        registerRoutes (Some good) table = (None, foldl insert_route table good))
   \<and> (table_ok table \<longrightarrow> table_ok (snd (registerRoutes (Some rs) table)))"
proof (intro conjI impI)
  assume "\<not> valid_route bad \<and> bad \<in> set rs"
  then show "fst (registerRoutes (Some rs) table) \<noteq> None"
    by (auto simp: registerRoutes_def registerLoop_error_iff)
next
  assume h: "(rt_event bad = JUndefined \<or> rt_event bad = JStr [] \<or> (\<exists>v. rt_handler bad = NotFunction v))
        \<and> bad \<in> set rs"
  then have "\<not> valid_route bad" by (auto simp: valid_route_def)
  with h show "fst (registerRoutes (Some rs) table) \<noteq> None"
    by (auto simp: registerRoutes_def registerLoop_error_iff)
next
  assume "valid_route r"
  then show "registerRoutes (Some [r]) table = (None, table(rt_event r \<mapsto> stored_route r))"
    by (simp add: registerRoutes_def registerLoop_step insert_route_def)
next
  assume "\<forall>x \<in> set good. valid_route x"
  then show "registerRoutes (Some good) table = (None, foldl insert_route table good)"
    by (simp add: registerRoutes_def registerLoop_all_valid)
next
  assume "table_ok table"
  then show "table_ok (snd (registerRoutes (Some rs) table))"
    by (simp add: registerRoutes_def registerLoop_table_ok)
qed

theorem registration_validates_witness:
  "fst (registerRoutes (Some [ex_route_in (JStr ''ping'') (ex_handler 7 Ok),
                              ex_route_in (JStr []) (ex_handler 8 Ok)]) Map.empty) \<noteq> None
   \<and> registerRoutes (Some [ex_route_in (JStr ''ping'') (ex_handler 7 Ok)]) Map.empty
       = (None, [JStr ''ping'' \<mapsto> stored_route (ex_route_in (JStr ''ping'') (ex_handler 7 Ok))])
   \<and> registerRoutes (Some [ex_route_in (JStr ''ping'') (ex_handler 7 Ok),
                            ex_route_in (JStr ''pong'') (ex_handler 8 Ok)]) Map.empty
       = (None, [JStr ''ping'' \<mapsto> stored_route (ex_route_in (JStr ''ping'') (ex_handler 7 Ok)),
                 JStr ''pong'' \<mapsto> stored_route (ex_route_in (JStr ''pong'') (ex_handler 8 Ok))])
   \<and> table_ok (snd (registerRoutes (Some [ex_route_in (JStr ''ping'') (ex_handler 7 Ok),
                              ex_route_in (JStr []) (ex_handler 8 Ok)]) Map.empty))"
proof -
  let ?ping = "ex_route_in (JStr ''ping'') (ex_handler 7 Ok)"
  let ?pong = "ex_route_in (JStr ''pong'') (ex_handler 8 Ok)"
  let ?bad = "ex_route_in (JStr []) (ex_handler 8 Ok)"
  have bad: "\<not> valid_route ?bad \<and> ?bad \<in> set [?ping, ?bad]"
    and bad': "(rt_event ?bad = JUndefined \<or> rt_event ?bad = JStr [] \<or> (\<exists>v. rt_handler ?bad = NotFunction v))
        \<and> ?bad \<in> set [?ping, ?bad]"
    and ok: "valid_route ?ping"
    and good: "\<forall>x \<in> set [?ping, ?pong]. valid_route x"
    and tab: "table_ok Map.empty"
    by (simp_all add: valid_route_def ex_route_in_def ex_handler_def table_ok_def)
  from registration_validates [where bad = ?bad and rs = "[?ping, ?bad]" and table = Map.empty
      and r = ?ping and good = "[?ping, ?pong]"] bad bad' ok good tab
  show ?thesis
    by (simp add: insert_route_def) (simp add: ex_route_in_def)
qed

text \<open>
  C10. When the entry \<open>r\<close> of the route list is the first invalid one (every entry of
  \<open>pre\<close> before it is valid), \<^verbatim>\<open>registerRoutes\<close> raises the error of \<open>r\<close>, and the table after
  the failed call is the table before it with the entries of \<open>pre\<close> inserted in order:
  every event type of \<open>pre\<close> is registered, and when these event types are distinct each
  holds the entry stored for its route.
\<close>

theorem registration_not_atomic:
  assumes "\<forall>x \<in> set pre. valid_route x" and "\<not> valid_route r"
  shows "fst (registerRoutes (Some (pre @ r # post)) table)
        = Some (if \<not> truthy (rt_event r) \<or> \<not> hfield_truthy (rt_handler r) then InvalidRoute
                else HandlerNotFunction (rt_event r))
    \<and> snd (registerRoutes (Some (pre @ r # post)) table) = foldl insert_route table pre
    \<and> (\<forall>x \<in> set pre. rt_event x \<in> dom (snd (registerRoutes (Some (pre @ r # post)) table)))
    \<and> (distinct (map rt_event pre) \<longrightarrow>
         (\<forall>x \<in> set pre. snd (registerRoutes (Some (pre @ r # post)) table) (rt_event x)
                           = Some (stored_route x)))"
proof -
  have s: "snd (registerRoutes (Some (pre @ r # post)) table) = foldl insert_route table pre"
    and f: "fst (registerRoutes (Some (pre @ r # post)) table)
        = Some (if \<not> truthy (rt_event r) \<or> \<not> hfield_truthy (rt_handler r) then InvalidRoute
                else HandlerNotFunction (rt_event r))"
    using registerLoop_first_invalid [OF assms, of post table] by (simp_all add: registerRoutes_def)
  show ?thesis
    unfolding s using f by (auto simp: foldl_insert_dom foldl_insert_last)
qed

theorem registration_not_atomic_witness:
  "fst (registerRoutes (Some [ex_route_in (JStr ''ping'') (ex_handler 7 Ok),
                              ex_route_in (JStr ''bad'') (NotFunction JUndefined),
                              ex_route_in (JStr ''pong'') (ex_handler 8 Ok)]) Map.empty)
     = Some InvalidRoute
   \<and> snd (registerRoutes (Some [ex_route_in (JStr ''ping'') (ex_handler 7 Ok),
                              ex_route_in (JStr ''bad'') (NotFunction JUndefined),
                              ex_route_in (JStr ''pong'') (ex_handler 8 Ok)]) Map.empty) (JStr ''ping'')
       = Some (stored_route (ex_route_in (JStr ''ping'') (ex_handler 7 Ok)))"
proof -
  let ?ping = "ex_route_in (JStr ''ping'') (ex_handler 7 Ok)"
  let ?pong = "ex_route_in (JStr ''pong'') (ex_handler 8 Ok)"
  let ?bad = "ex_route_in (JStr ''bad'') (NotFunction JUndefined)"
  have pre: "\<forall>x \<in> set [?ping]. valid_route x" and bad: "\<not> valid_route ?bad"
    by (simp_all add: valid_route_def ex_route_in_def ex_handler_def)
  from registration_not_atomic [OF pre bad, of "[?pong]" Map.empty]
  show ?thesis by (simp add: ex_route_in_def insert_route_def)
qed

section \<open>Properties of the middleware chain\<close>

text \<open>
  A relation between the states of the runner that holds along every step of a chain
  (an effect, a \<^verbatim>\<open>stop()\<close>, an advance of \<^verbatim>\<open>i\<close>) holds between the state a piece of
  middleware code starts in and the state it ends in.
\<close>

lemma exec_rel:
  assumes refl: "\<And>s. R s s"
    and trans: "\<And>a b c. R a b \<Longrightarrow> R b c \<Longrightarrow> R a c"
    and eff: "\<And>i c n. R (i, c) (i, log (Mark n) c)"
    and stop: "\<And>i c. R (i, c) (i, c\<lparr>stopped := True\<rparr>)"
    and idx: "\<And>i c j. i < j \<Longrightarrow> R (i, c) (j, c)"
  shows "R s (snd (exec mws j cs s))"
proof (induction mws j cs s rule: exec.induct)
  case (1 mws j s)
  show ?case by (simp add: refl)
next
  case (2 mws j n cs i c)
  from trans [OF eff 2] show ?case by simp
next
  case (3 mws j cs i c)
  from trans [OF stop 3] show ?case by simp
next
  case (4 mws j m cs s)
  show ?case by (simp add: refl)
next
  case (5 mws j cs i c)
  show ?case
  proof (cases "j + 1 \<le> i")
    case True
    then show ?thesis by (simp add: refl)
  next
    case le: False
    then have step: "R (i, c) (j + 1, c)" by (intro idx) simp
    show ?thesis
    proof (cases "0 \<le> j + 1 \<and> j + 1 < int (length mws)")
      case False
      from 5(3) [OF le False] have "R (j + 1, c) (snd (exec mws j cs (j + 1, c)))" .
      from trans [OF step this] le False show ?thesis by auto
    next
      case True
      obtain x y where xy: "exec mws (j + 1) (mws ! nat (j + 1)) (j + 1, c) = (x, y)"
        by (cases "exec mws (j + 1) (mws ! nat (j + 1)) (j + 1, c)") auto
      from 5(1) [OF le True] xy have inner: "R (j + 1, c) y" by simp
      show ?thesis
      proof (cases x)
        case None
        from 5(2) [OF le True xy [symmetric] None] have "R y (snd (exec mws j cs y))" .
        from trans [OF step trans [OF inner this]] le True xy None show ?thesis by simp
      next
        case (Some e)
        from trans [OF step inner] le True xy Some show ?thesis by simp
      qed
    qed
  qed
next
  case (6 mws j body recover cs s)
  obtain x y where xy: "exec mws j body s = (x, y)"
    by (cases "exec mws j body s") auto
  from 6(1) xy have b: "R s y" by simp
  show ?case
  proof (cases x)
    case None
    from 6(2) [OF xy [symmetric] None] have "R y (snd (exec mws j cs y))" .
    from trans [OF b this] xy None show ?thesis by simp
  next
    case (Some e)
    obtain x' y' where xy': "exec mws j recover y = (x', y')"
      by (cases "exec mws j recover y") auto
    from 6(3) [OF xy [symmetric] Some] xy' have r: "R y y'" by simp
    show ?thesis
    proof (cases x')
      case None
      from 6(4) [OF xy [symmetric] Some xy' [symmetric] None] have "R y' (snd (exec mws j cs y'))" .
      from trans [OF b trans [OF r this]] xy Some xy' None show ?thesis by simp
    next
      case (Some e')
      from trans [OF b r] xy \<open>x = Some e\<close> xy' Some show ?thesis by simp
    qed
  qed
qed

lemma exec_index_mono: "fst s \<le> fst (snd (exec mws j cs s))"
  by (rule exec_rel [where R = "\<lambda>s s'. fst s \<le> fst s'"]) auto

lemma exec_stopped_mono: "stopped (snd s) \<Longrightarrow> stopped (snd (snd (exec mws j cs s)))"
  using exec_rel [where R = "\<lambda>s s'. stopped (snd s) \<longrightarrow> stopped (snd s')" and s = s and mws = mws and j = j and cs = cs]
  by (auto simp: log_def)

lemma exec_trace:
  "\<exists>ms b. snd (snd (exec mws j cs s)) = (snd s)\<lparr>stopped := b, trace := trace (snd s) @ map Mark ms\<rparr>"
proof (rule exec_rel [where R = "\<lambda>s s'. \<exists>ms b. snd s' = (snd s)\<lparr>stopped := b, trace := trace (snd s) @ map Mark ms\<rparr>"], goal_cases)
  case (1 s)
  have "snd s = (snd s)\<lparr>stopped := stopped (snd s), trace := trace (snd s) @ map Mark []\<rparr>" by simp
  then show ?case by blast
next
  case (2 a b c)
  then obtain ms b1 ms' b2 where
    1: "snd b = (snd a)\<lparr>stopped := b1, trace := trace (snd a) @ map Mark ms\<rparr>" and
    2: "snd c = (snd b)\<lparr>stopped := b2, trace := trace (snd b) @ map Mark ms'\<rparr>" by blast
  have "snd c = (snd a)\<lparr>stopped := b2, trace := trace (snd a) @ map Mark (ms @ ms')\<rparr>"
    by (simp add: 1 2)
  then show ?case by blast
next
  case (3 i c n)
  have "log (Mark n) c = c\<lparr>stopped := stopped c, trace := trace c @ map Mark [n]\<rparr>"
    by (simp add: log_def)
  then show ?case unfolding snd_conv by blast
next
  case (4 i c)
  have "c\<lparr>stopped := True\<rparr> = c\<lparr>stopped := True, trace := trace c @ map Mark []\<rparr>" by simp
  then show ?case unfolding snd_conv by blast
next
  case (5 i c j)
  have "c = c\<lparr>stopped := stopped c, trace := trace c @ map Mark []\<rparr>" by simp
  then show ?case unfolding snd_conv by blast
qed

lemma with_stop_simp [simp]: "with_stop (e, (i, c)) = (e, (i, c\<lparr>stopped := True\<rparr>))"
  by (simp add: with_stop_def)

lemma with_stop_fst [simp]: "fst (with_stop r) = fst r"
  by (cases r) (auto simp: with_stop_def)

lemma log_stopped: "log e (c\<lparr>stopped := b\<rparr>) = (log e c)\<lparr>stopped := b\<rparr>"
  by (simp add: log_def)

lemma exec_stop_insensitive:
  "exec mws j cs (i, c\<lparr>stopped := True\<rparr>) = with_stop (exec mws j cs (i, c))"
proof (induction mws j cs "(i, c)" arbitrary: i c rule: exec.induct)
  case (1 mws j)
  show ?case by simp
next
  case (2 mws j n cs i c)
  then show ?case by (simp add: log_stopped)
next
  case (3 mws j cs i c)
  then show ?case by simp
next
  case (4 mws j m cs)
  show ?case by simp
next
  case (5 mws j cs i c)
  show ?case
  proof (cases "j + 1 \<le> i")
    case True
    then show ?thesis by simp
  next
    case le: False
    show ?thesis
    proof (cases "0 \<le> j + 1 \<and> j + 1 < int (length mws)")
      case False
      from 5(3) [OF le False] le False show ?thesis by auto
    next
      case True
      obtain x i' c' where xy: "exec mws (j + 1) (mws ! nat (j + 1)) (j + 1, c) = (x, (i', c'))"
        by (cases "exec mws (j + 1) (mws ! nat (j + 1)) (j + 1, c)") auto
      from 5(1) [OF le True] xy
      have inner: "exec mws (j + 1) (mws ! nat (j + 1)) (j + 1, c\<lparr>stopped := True\<rparr>)
                    = (x, (i', c'\<lparr>stopped := True\<rparr>))" by simp
      show ?thesis
      proof (cases x)
        case None
        from 5(2) [OF le True xy [symmetric] None]
        have "exec mws j cs (i', c'\<lparr>stopped := True\<rparr>) = with_stop (exec mws j cs (i', c'))" .
        with le True xy inner None show ?thesis by simp
      next
        case (Some e)
        with le True xy inner show ?thesis by simp
      qed
    qed
  qed
next
  case (6 mws j body recover cs i c)
  obtain x i1 c1 where xy: "exec mws j body (i, c) = (x, (i1, c1))"
    by (cases "exec mws j body (i, c)") auto
  from 6(1) xy have b: "exec mws j body (i, c\<lparr>stopped := True\<rparr>) = (x, (i1, c1\<lparr>stopped := True\<rparr>))"
    by simp
  show ?case
  proof (cases x)
    case None
    from 6(2) [OF xy [symmetric] None]
    have "exec mws j cs (i1, c1\<lparr>stopped := True\<rparr>) = with_stop (exec mws j cs (i1, c1))" .
    with xy b None show ?thesis by simp
  next
    case (Some e)
    obtain x' i2 c2 where xy': "exec mws j recover (i1, c1) = (x', (i2, c2))"
      by (cases "exec mws j recover (i1, c1)") auto
    from 6(3) [OF xy [symmetric] Some] xy'
    have r: "exec mws j recover (i1, c1\<lparr>stopped := True\<rparr>) = (x', (i2, c2\<lparr>stopped := True\<rparr>))"
      by simp
    show ?thesis
    proof (cases x')
      case None
      from 6(4) [OF xy [symmetric] Some xy' [symmetric] None]
      have "exec mws j cs (i2, c2\<lparr>stopped := True\<rparr>) = with_stop (exec mws j cs (i2, c2))" .
      with xy b \<open>x = Some e\<close> xy' r None show ?thesis by simp
    next
      case (Some e')
      with xy b \<open>x = Some e\<close> xy' r show ?thesis by simp
    qed
  qed
qed

lemma exec_append:
  "exec mws j (xs @ ys) s =
     (case exec mws j xs s of (None, s') \<Rightarrow> exec mws j ys s' | (Some e, s') \<Rightarrow> (Some e, s'))"
proof (induction mws j xs s rule: exec.induct)
  case (1 mws j s)
  show ?case by simp
next
  case (2 mws j n cs i c)
  then show ?case by simp
next
  case (3 mws j cs i c)
  then show ?case by simp
next
  case (4 mws j m cs s)
  show ?case by simp
next
  case (5 mws j cs i c)
  show ?case
  proof (cases "j + 1 \<le> i")
    case True
    then show ?thesis by simp
  next
    case le: False
    show ?thesis
    proof (cases "0 \<le> j + 1 \<and> j + 1 < int (length mws)")
      case False
      from 5(3) [OF le False] le False show ?thesis by auto
    next
      case True
      obtain x y where xy: "exec mws (j + 1) (mws ! nat (j + 1)) (j + 1, c) = (x, y)"
        by (cases "exec mws (j + 1) (mws ! nat (j + 1)) (j + 1, c)") auto
      show ?thesis
      proof (cases x)
        case None
        from 5(2) [OF le True xy [symmetric] None] le True xy None show ?thesis by simp
      next
        case (Some e)
        with le True xy show ?thesis by simp
      qed
    qed
  qed
next
  case (6 mws j body recover cs s)
  obtain x y where xy: "exec mws j body s = (x, y)"
    by (cases "exec mws j body s") auto
  show ?case
  proof (cases x)
    case None
    from 6(2) [OF xy [symmetric] None] xy None show ?thesis by simp
  next
    case (Some e)
    obtain x' y' where xy': "exec mws j recover y = (x', y')"
      by (cases "exec mws j recover y") auto
    show ?thesis
    proof (cases x')
      case None
      from 6(4) [OF xy [symmetric] Some xy' [symmetric] None] xy Some xy' None show ?thesis by simp
    next
      case (Some e')
      with xy \<open>x = Some e\<close> xy' show ?thesis by simp
    qed
  qed
qed

lemma exec_AwaitNext:
  "exec mws j (AwaitNext # cs) s =
     (case next_mw mws (j + 1) s of (None, s') \<Rightarrow> exec mws j cs s' | (Some e, s') \<Rightarrow> (Some e, s'))"
  by (cases s) (auto simp: next_mw_def)

lemma next_mw_index: "j \<le> fst (snd (next_mw mws j s)) \<and> fst s \<le> fst (snd (next_mw mws j s))"
  using exec_index_mono [of "(j, snd s)" mws j "mws ! nat j"]
  by (cases s) (auto simp: next_mw_def)

lemma next_mw_again:
  assumes "j \<le> fst s"
  shows "next_mw mws j s = (Some DoubleContinuationError, s)"
  using assms by (cases s) (simp add: next_mw_def)

lemma only_log [simp]: "only P (log e c) = (only P c \<and> P e)"
  by (simp add: only_def log_def)

lemma stopped_log [simp]: "stopped (log e c) = stopped c"
  by (simp add: log_def)

lemma runHookList_only:
  assumes "\<And>l. P (HookRan n l)" and "\<And>e. P (LogHookError n e)"
  shows "only P c \<Longrightarrow> only P (runHookList n hs err c)"
  by (induction hs arbitrary: c) (auto simp: assms Let_def split: hres.splits)

lemma runHookList_stopped [simp]: "stopped (runHookList n hs err c) = stopped c"
  by (induction hs arbitrary: c) (auto simp: Let_def split: hres.splits)

lemma runHookList_view [simp]: "view (runHookList n hs err c) = view c"
  by (induction hs arbitrary: c) (auto simp: Let_def split: hres.splits)

lemma runHooks_only:
  assumes "\<And>l. P (HookRan n l)" and "\<And>e. P (LogHookError n e)"
  shows "only P c \<Longrightarrow> only P (runHooks hk n err c)"
  unfolding runHooks_def by (rule runHookList_only [OF assms])

lemma runHooks_stopped [simp]: "stopped (runHooks hk n err c) = stopped c"
  by (simp add: runHooks_def)

lemma runGuards_only:
  assumes "\<And>l. P (GuardRan l)" and "\<And>e. P (LogGuardError e)" and "\<And>r. P (LogGuardRejected r)"
  shows "only P c \<Longrightarrow> only P (snd (runGuards dbg gs c))"
proof (induction gs arbitrary: c)
  case Nil
  then show ?case by simp
next
  case (Cons g gs)
  have "list_all P (reject_log dbg r)" for r
    by (cases r) (simp_all add: assms)
  with Cons show ?case
    by (auto simp: runGuards_step assms only_def log_def)
qed

lemma runGuards_stopped [simp]: "stopped (snd (runGuards dbg gs c)) = stopped c"
  by (induction gs arbitrary: c) (simp_all add: runGuards_step)

lemma exec_only:
  assumes "\<And>n. P (Mark n)"
  shows "only P (snd s) \<Longrightarrow> only P (snd (snd (exec mws j cs s)))"
proof -
  assume a: "only P (snd s)"
  from exec_trace [of mws j cs s] obtain ms b where
    "snd (snd (exec mws j cs s)) = (snd s)\<lparr>stopped := b, trace := trace (snd s) @ map Mark ms\<rparr>"
    by blast
  with a show ?thesis by (auto simp: only_def list_all_iff assms)
qed

lemma next_mw_only:
  assumes "\<And>n. P (Mark n)"
  shows "only P c \<Longrightarrow> only P (snd (snd (next_mw mws j (i, c))))"
  using exec_only [of P "(j, c)" mws j "mws ! nat j", OF assms]
  by (simp add: next_mw_def)

lemma runMiddleware_only:
  assumes "\<And>n. P (Mark n)" and "\<And>e. P (LogMiddlewareError e)"
  shows "only P c \<Longrightarrow> only P (snd (runMiddleware mws c))"
  using next_mw_only [of P c mws 0 "- 1", OF assms(1)]
  by (auto simp: runMiddleware_def assms(2) split: prod.splits option.splits)

lemma runMiddleware_verdict:
  "fst (runMiddleware mws c) \<Longrightarrow> \<not> stopped (snd (runMiddleware mws c))"
  by (auto simp: runMiddleware_def split: prod.splits option.splits if_splits)

lemma runMiddleware_stopped_mono:
  "stopped c \<Longrightarrow> stopped (snd (runMiddleware mws c))"
  using exec_stopped_mono [of "(0, c)" mws 0 "mws ! 0"]
  by (auto simp: runMiddleware_def next_mw_def split: prod.splits option.splits if_splits)

lemma createContext_fresh:
  "createContext tr ty pl = Inr c \<Longrightarrow> trace c = [] \<and> \<not> stopped c"
  by (auto simp: createContext_def split: option.splits sum.splits)

lemma tryBlock_global_rejects:
  "\<not> fst (runMiddleware (globalMiddleware sys) c) \<Longrightarrow>
   tryBlock sys ty c = (Inr Rejected, snd (runMiddleware (globalMiddleware sys) c))"
  by (cases "runMiddleware (globalMiddleware sys) c") (simp add: tryBlock_def)

lemma tryBlock_route_rejects:
  "runMiddleware (globalMiddleware sys) c = (True, c1) \<Longrightarrow> routes sys ty = Some rt \<Longrightarrow>
   runGuards (debug sys) (guards rt) c1 = (True, c2) \<Longrightarrow> \<not> fst (runMiddleware (middleware rt) c2) \<Longrightarrow>
   tryBlock sys ty c = (Inr Rejected, snd (runMiddleware (middleware rt) c2))"
  by (cases "runMiddleware (middleware rt) c2") (simp add: tryBlock_def)

lemma tryBlock_Inl:
  "fst (tryBlock sys ty c) = Inl e \<Longrightarrow>
   \<exists>rt. routes sys ty = Some rt \<and>
     ((\<exists>v. handler rt = NotFunction v \<and> e = TypeError)
      \<or> (\<exists>h c'. handler rt = Function h \<and> h_fun h c' = Fails e))"
  by (auto simp: tryBlock_def split: prod.splits if_splits option.splits hfield.splits hres.splits)

lemma tryBlock_stopped:
  assumes s: "stopped (snd (tryBlock sys ty c))"
  shows "fst (tryBlock sys ty c) = Inr Rejected"
proof -
  obtain acc c1 where g: "runMiddleware (globalMiddleware sys) c = (acc, c1)"
    by (cases "runMiddleware (globalMiddleware sys) c") auto
  show ?thesis
  proof (cases acc)
    case False
    with g show ?thesis by (simp add: tryBlock_def)
  next
    case True
    with g runMiddleware_verdict [of "globalMiddleware sys" c] have n1: "\<not> stopped c1" by simp
    show ?thesis
    proof (cases "routes sys ty")
      case None
      with g True show ?thesis by (simp add: tryBlock_def)
    next
      case (Some rt)
      obtain al c2 where gd: "runGuards (debug sys) (guards rt) c1 = (al, c2)"
        by (cases "runGuards (debug sys) (guards rt) c1") auto
      from runGuards_stopped [of "debug sys" "guards rt" c1] gd n1 have n2: "\<not> stopped c2" by simp
      obtain ps c3 where rm: "runMiddleware (middleware rt) c2 = (ps, c3)"
        by (cases "runMiddleware (middleware rt) c2") auto
      show ?thesis
      proof (cases "al \<and> ps")
        case False
        with g True Some gd rm show ?thesis by (auto simp: tryBlock_def)
      next
        case ap: True
        with rm runMiddleware_verdict [of "middleware rt" c2] have n3: "\<not> stopped c3" by simp
        from g True Some gd rm ap n3 have "\<not> stopped (snd (tryBlock sys ty c))"
          by (auto simp: tryBlock_def split: hfield.splits hres.splits)
        with s show ?thesis by simp
      qed
    qed
  qed
qed

lemma tryBlock_only:
  assumes "\<And>n. P (Mark n)" and "\<And>e. P (LogMiddlewareError e)"
    and "\<And>l. P (GuardRan l)" and "\<And>e. P (LogGuardError e)" and "\<And>r. P (LogGuardRejected r)"
    and "\<And>v. P (LogNoHandler v)"
    and r: "fst (tryBlock sys ty c) = Inr Rejected" and c: "only P c"
  shows "only P (snd (tryBlock sys ty c))"
proof -
  have m: "only P x \<Longrightarrow> only P (snd (runMiddleware mws x))" for x mws
    by (rule runMiddleware_only [OF assms(1,2)])
  have gd: "only P x \<Longrightarrow> only P (snd (runGuards dbg gs x))" for x dbg gs
    by (rule runGuards_only [OF assms(3,4,5)])
  obtain acc c1 where g1: "runMiddleware (globalMiddleware sys) c = (acc, c1)"
    by (cases "runMiddleware (globalMiddleware sys) c") auto
  with m [OF c, of "globalMiddleware sys"] have o1: "only P c1" by simp
  show ?thesis
  proof (cases "routes sys ty")
    case None
    with g1 o1 show ?thesis by (auto simp: tryBlock_def assms(6))
  next
    case (Some rt)
    obtain al c2 where g2: "runGuards (debug sys) (guards rt) c1 = (al, c2)"
      by (cases "runGuards (debug sys) (guards rt) c1") auto
    with gd [OF o1, of "debug sys" "guards rt"] have o2: "only P c2" by simp
    obtain ps c3 where g3: "runMiddleware (middleware rt) c2 = (ps, c3)"
      by (cases "runMiddleware (middleware rt) c2") auto
    with m [OF o2, of "middleware rt"] have o3: "only P c3" by simp
    from r g1 Some g2 g3 o1 o2 o3 show ?thesis
      by (auto simp: tryBlock_def split: if_splits hfield.splits hres.splits)
  qed
qed

section \<open>Properties of the dispatcher\<close>

lemma onMessage_Inr:
  "createContext (transport sys) ty pl = Inr c0 \<Longrightarrow>
   fst (tryBlock sys ty (runHooks (lifecycleHooks sys) BeforeMessage None c0)) = Inr oc \<Longrightarrow>
   onMessage sys ty pl = (oc, Some (snd (tryBlock sys ty (runHooks (lifecycleHooks sys) BeforeMessage None c0))))"
  by (cases "tryBlock sys ty (runHooks (lifecycleHooks sys) BeforeMessage None c0)")
     (simp add: onMessage_def)

lemma before_only:
  assumes "\<And>l. P (HookRan BeforeMessage l)" and "\<And>e. P (LogHookError BeforeMessage e)"
    and "createContext tr ty pl = Inr c0"
  shows "only P (runHooks hk BeforeMessage None c0)"
proof -
  from createContext_fresh [OF assms(3)] have "only P c0" by (simp add: only_def)
  then show ?thesis by (rule runHooks_only [OF assms(1,2)])
qed

lemma runMiddleware_stop_first:
  "stopped (snd (runMiddleware ((CtxStop # rest) # others) c))"
proof -
  have "stopped (snd (snd (exec ((CtxStop # rest) # others) 0 rest (0, c\<lparr>stopped := True\<rparr>))))"
    by (rule exec_stopped_mono) simp
  then show ?thesis
    by (auto simp: runMiddleware_def next_mw_def split: prod.splits option.splits)
qed

text \<open>
  C3, as amended. Take an inbound message whose context is built, let \<open>c1\<close> be the context
  after the \<^verbatim>\<open>beforeMessage\<close> hooks and \<open>cf\<close> the context after the global chain. When
  \<^verbatim>\<open>ctx.stop()\<close> has been called in the global chain (\<open>cf\<close> is stopped; in particular
  when the first global middleware starts with \<^verbatim>\<open>ctx.stop()\<close>), the message ends in
  \<open>Rejected\<close> and its context is \<open>cf\<close>: nothing runs after the global chain, so the handler
  is never invoked, and the \<^verbatim>\<open>afterMessage\<close> hooks do not run for that message.
\<close>

theorem stop_in_global_middleware:
  assumes "createContext (transport sys) ty pl = Inr c0"
    and "c1 = runHooks (lifecycleHooks sys) BeforeMessage None c0"
    and "cf = snd (runMiddleware (globalMiddleware sys) c1)"
  shows "(stopped cf \<longrightarrow>
            onMessage sys ty pl = (Rejected, Some cf) \<and> (\<forall>ev \<in> set (trace cf). \<not> after_route ev))
       \<and> (globalMiddleware sys = (CtxStop # rest) # others \<longrightarrow>
            onMessage sys ty pl = (Rejected, Some cf) \<and> (\<forall>ev \<in> set (trace cf). \<not> after_route ev))"
proof -
  have o1: "only (\<lambda>ev. \<not> after_route ev) c1"
    unfolding assms(2) by (rule before_only [OF _ _ assms(1)]) simp_all
  have "only (\<lambda>ev. \<not> after_route ev) cf"
    unfolding assms(3) by (rule runMiddleware_only [OF _ _ o1]) simp_all
  then have tr: "\<forall>ev \<in> set (trace cf). \<not> after_route ev"
    by (simp add: only_def list_all_iff)
  have rej: "onMessage sys ty pl = (Rejected, Some cf)" if "stopped cf"
  proof -
    from that runMiddleware_verdict [of "globalMiddleware sys" c1]
    have "\<not> fst (runMiddleware (globalMiddleware sys) c1)" by (auto simp: assms(3))
    from tryBlock_global_rejects [OF this, of ty]
    have t: "tryBlock sys ty c1 = (Inr Rejected, cf)" by (simp add: assms(3))
    from onMessage_Inr [OF assms(1), where oc = Rejected] t show ?thesis
      by (simp add: assms(2))
  qed
  have "stopped cf" if "globalMiddleware sys = (CtxStop # rest) # others"
    unfolding assms(3) that by (rule runMiddleware_stop_first)
  with rej tr show ?thesis by blast
qed

theorem stop_in_global_middleware_witness:
  "onMessage (ex_system [[CtxStop, AwaitNext]] (ex_open_route [[Effect 15, AwaitNext]] Ok) Ok) (JStr ''secure.action'') ex_payload
     = (Rejected, Some (ex_ctx\<lparr>stopped := True, trace := [HookRan BeforeMessage 10]\<rparr>))
   \<and> \<not> after_route (HookRan BeforeMessage 10)"
proof -
  let ?sys = "ex_system [[CtxStop, AwaitNext]] (ex_open_route [[Effect 15, AwaitNext]] Ok) Ok"
  let ?c1 = "ex_ctx\<lparr>trace := [HookRan BeforeMessage 10]\<rparr>"
  let ?cf = "ex_ctx\<lparr>stopped := True, trace := [HookRan BeforeMessage 10]\<rparr>"
  have cc: "createContext (transport ?sys) (JStr ''secure.action'') ex_payload = Inr ex_ctx"
    by (rule ex_createContext)
  have c1: "?c1 = runHooks (lifecycleHooks ?sys) BeforeMessage None ex_ctx"
    by (simp add: ex_before)
  have cf: "?cf = snd (runMiddleware (globalMiddleware ?sys) ?c1)"
    by (simp add: ex_system_def runMiddleware_def next_mw_def ex_ctx_def)
  have gm: "globalMiddleware ?sys = (CtxStop # [AwaitNext]) # []"
    by (simp add: ex_system_def)
  have st: "stopped ?cf" by simp
  from stop_in_global_middleware [OF cc c1 cf, of "[AwaitNext]" "[]"] gm st
  show ?thesis by simp
qed

text \<open>
  The claim as stated fails: with a global middleware that calls \<^verbatim>\<open>ctx.stop()\<close> and an
  \<^verbatim>\<open>afterMessage\<close> hook registered, the only call made for the message is the
  \<^verbatim>\<open>beforeMessage\<close> hook; the \<^verbatim>\<open>afterMessage\<close> hook is not run.
\<close>

theorem stop_in_global_middleware_counterexample:
  "onMessage (ex_system [[CtxStop]] (ex_open_route [[Effect 15, AwaitNext]] Ok) Ok) (JStr ''secure.action'') ex_payload
     = (Rejected, Some (ex_ctx\<lparr>stopped := True, trace := [HookRan BeforeMessage 10]\<rparr>))
   \<and> lifecycleHooks (ex_system [[CtxStop]] (ex_open_route [[Effect 15, AwaitNext]] Ok) Ok) AfterMessage = [ex_hook 20 Ok]"
  by (simp add: onMessage_def ex_createContext ex_before tryBlock_def)
     (simp add: ex_system_def runMiddleware_def next_mw_def ex_ctx_def ex_hooks_def)

text \<open>
  C1, as amended. A call of the continuation \<^verbatim>\<open>next(j)\<close> when the runner's last index is
  already \<open>\<ge> j\<close> raises \<open>DoubleContinuationError\<close> and runs nothing. After one call of
  \<^verbatim>\<open>next(j)\<close>, whatever middleware code runs in between, a second call of \<^verbatim>\<open>next(j)\<close>
  raises it; so a middleware body that reaches a second \<^verbatim>\<open>await next()\<close> gets the error
  there. An exception that leaves the chain is caught by \<^verbatim>\<open>runMiddleware\<close>, which logs
  it and reports \<^verbatim>\<open>false\<close>; the dispatch of the message then ends in \<open>Rejected\<close>, for
  the global chain and for the route chain alike, and neither the \<^verbatim>\<open>onError\<close> hooks nor
  the error handler run for it.
\<close>

theorem second_continuation_call:
  "(j \<le> i \<longrightarrow> next_mw mws j (i, c) = (Some DoubleContinuationError, (i, c)))
   \<and> (next_mw mws j s = (r1, s1) \<and> exec mws k cs s1 = (r2, s2) \<longrightarrow>
        next_mw mws j s2 = (Some DoubleContinuationError, s2))
   \<and> (exec mws k (pre @ AwaitNext # mid) t = (None, t1) \<longrightarrow>
        exec mws k (pre @ AwaitNext # mid @ AwaitNext # post) t = (Some DoubleContinuationError, t1))
   \<and> (next_mw mws 0 (- 1, c) = (Some e, (i', c')) \<longrightarrow>
        runMiddleware mws c = (False, log (LogMiddlewareError e) c'))
   \<and> (createContext (transport sys) ty pl = Inr c0
        \<and> next_mw (globalMiddleware sys) 0 (- 1, runHooks (lifecycleHooks sys) BeforeMessage None c0)
              = (Some e0, (i0, cg)) \<longrightarrow>
        onMessage sys ty pl = (Rejected, Some (log (LogMiddlewareError e0) cg))
        \<and> (\<forall>ev \<in> set (trace (log (LogMiddlewareError e0) cg)). \<not> error_path ev))
   \<and> (createContext (transport sys') ty' pl' = Inr c0'
        \<and> runMiddleware (globalMiddleware sys') (runHooks (lifecycleHooks sys') BeforeMessage None c0')
              = (True, c1')
        \<and> routes sys' ty' = Some rt \<and> runGuards (debug sys') (guards rt) c1' = (True, c2')
        \<and> next_mw (middleware rt) 0 (- 1, c2') = (Some e1, (i1, cr)) \<longrightarrow>
        onMessage sys' ty' pl' = (Rejected, Some (log (LogMiddlewareError e1) cr))
        \<and> (\<forall>ev \<in> set (trace (log (LogMiddlewareError e1) cr)). \<not> error_path ev))"
proof (intro conjI impI)
  assume "j \<le> i"
  then show "next_mw mws j (i, c) = (Some DoubleContinuationError, (i, c))"
    by (simp add: next_mw_again)
next
  assume h: "next_mw mws j s = (r1, s1) \<and> exec mws k cs s1 = (r2, s2)"
  with next_mw_index [of j mws s] have "j \<le> fst s1" by simp
  also from h exec_index_mono [of s1 mws k cs] have "fst s1 \<le> fst s2" by simp
  finally show "next_mw mws j s2 = (Some DoubleContinuationError, s2)"
    by (rule next_mw_again)
next
  assume h: "exec mws k (pre @ AwaitNext # mid) t = (None, t1)"
  obtain x y where p: "exec mws k pre t = (x, y)" by (cases "exec mws k pre t") auto
  with h have x: "x = None" and a: "exec mws k (AwaitNext # mid) y = (None, t1)"
    by (auto simp: exec_append [of mws k pre] split: option.splits)
  obtain x' y' where n: "next_mw mws (k + 1) y = (x', y')" by (cases "next_mw mws (k + 1) y") auto
  with a have x': "x' = None" and m: "exec mws k mid y' = (None, t1)"
    by (auto simp: exec_AwaitNext split: option.splits)
  from next_mw_index [of "k + 1" mws y] n have "k + 1 \<le> fst y'" by simp
  also from exec_index_mono [of y' mws k mid] m have "fst y' \<le> fst t1" by simp
  finally have "next_mw mws (k + 1) t1 = (Some DoubleContinuationError, t1)"
    by (rule next_mw_again)
  then have "exec mws k (AwaitNext # post) t1 = (Some DoubleContinuationError, t1)"
    by (simp add: exec_AwaitNext)
  with h show "exec mws k (pre @ AwaitNext # mid @ AwaitNext # post) t = (Some DoubleContinuationError, t1)"
    using exec_append [of mws k "pre @ AwaitNext # mid" "AwaitNext # post" t] by simp
next
  assume "next_mw mws 0 (- 1, c) = (Some e, (i', c'))"
  then show "runMiddleware mws c = (False, log (LogMiddlewareError e) c')"
    by (simp add: runMiddleware_def)
next
  assume h: "createContext (transport sys) ty pl = Inr c0
        \<and> next_mw (globalMiddleware sys) 0 (- 1, runHooks (lifecycleHooks sys) BeforeMessage None c0)
              = (Some e0, (i0, cg))"
  let ?c1 = "runHooks (lifecycleHooks sys) BeforeMessage None c0"
  from h have rm: "runMiddleware (globalMiddleware sys) ?c1 = (False, log (LogMiddlewareError e0) cg)"
    by (simp add: runMiddleware_def)
  then have "\<not> fst (runMiddleware (globalMiddleware sys) ?c1)" by simp
  from tryBlock_global_rejects [OF this, of ty] rm
  have t: "tryBlock sys ty ?c1 = (Inr Rejected, log (LogMiddlewareError e0) cg)" by simp
  have o1: "only (\<lambda>ev. \<not> error_path ev) ?c1"
    by (rule before_only [where tr = "transport sys" and ty = ty and pl = pl]) (simp_all add: h)
  have "only (\<lambda>ev. \<not> error_path ev) (snd (runMiddleware (globalMiddleware sys) ?c1))"
    by (rule runMiddleware_only [OF _ _ o1]) simp_all
  with rm show "\<forall>ev \<in> set (trace (log (LogMiddlewareError e0) cg)). \<not> error_path ev"
    by (simp add: only_def list_all_iff log_def)
  from onMessage_Inr [where oc = Rejected and sys = sys and ty = ty and pl = pl and ?c0.0 = c0] h t
  show "onMessage sys ty pl = (Rejected, Some (log (LogMiddlewareError e0) cg))" by simp
next
  assume h: "createContext (transport sys') ty' pl' = Inr c0'
        \<and> runMiddleware (globalMiddleware sys') (runHooks (lifecycleHooks sys') BeforeMessage None c0')
              = (True, c1')
        \<and> routes sys' ty' = Some rt \<and> runGuards (debug sys') (guards rt) c1' = (True, c2')
        \<and> next_mw (middleware rt) 0 (- 1, c2') = (Some e1, (i1, cr))"
  let ?c1 = "runHooks (lifecycleHooks sys') BeforeMessage None c0'"
  from h have rm: "runMiddleware (middleware rt) c2' = (False, log (LogMiddlewareError e1) cr)"
    by (simp add: runMiddleware_def)
  then have nf: "\<not> fst (runMiddleware (middleware rt) c2')" by simp
  from h have g: "runMiddleware (globalMiddleware sys') ?c1 = (True, c1')"
    and r: "routes sys' ty' = Some rt" and gd: "runGuards (debug sys') (guards rt) c1' = (True, c2')"
    by simp_all
  from tryBlock_route_rejects [OF g r gd nf] rm
  have t: "tryBlock sys' ty' ?c1 = (Inr Rejected, log (LogMiddlewareError e1) cr)" by simp
  have o1: "only (\<lambda>ev. \<not> error_path ev) ?c1"
    by (rule before_only [where tr = "transport sys'" and ty = ty' and pl = pl']) (simp_all add: h)
  have "only (\<lambda>ev. \<not> error_path ev) (snd (tryBlock sys' ty' ?c1))"
    by (rule tryBlock_only [OF _ _ _ _ _ _ _ o1]) (simp_all add: t)
  with t show "\<forall>ev \<in> set (trace (log (LogMiddlewareError e1) cr)). \<not> error_path ev"
    by (simp add: only_def list_all_iff log_def)
  from onMessage_Inr [where oc = Rejected and sys = sys' and ty = ty' and pl = pl' and ?c0.0 = c0'] h t
  show "onMessage sys' ty' pl' = (Rejected, Some (log (LogMiddlewareError e1) cr))" by simp
qed

theorem second_continuation_call_witness:
  "next_mw [[AwaitNext, AwaitNext]] 1 (1, ex_ctx) = (Some DoubleContinuationError, (1, ex_ctx))
   \<and> next_mw [[AwaitNext, AwaitNext]] 1 (1, log (Mark 12) ex_ctx)
        = (Some DoubleContinuationError, (1, log (Mark 12) ex_ctx))
   \<and> exec [[AwaitNext, AwaitNext]] 0 [AwaitNext, Effect 12, AwaitNext, Effect 13] (0, ex_ctx)
        = (Some DoubleContinuationError, (1, log (Mark 12) ex_ctx))
   \<and> runMiddleware [[AwaitNext, AwaitNext]] ex_ctx
        = (False, log (LogMiddlewareError DoubleContinuationError) ex_ctx)
   \<and> onMessage (ex_system [[AwaitNext, AwaitNext]] (ex_open_route [] Ok) Ok) (JStr ''secure.action'') ex_payload
        = (Rejected, Some (ex_ctx\<lparr>trace := [HookRan BeforeMessage 10,
                                               LogMiddlewareError DoubleContinuationError]\<rparr>))
   \<and> onMessage (ex_system [] (ex_open_route [[AwaitNext, AwaitNext]] Ok) Ok) (JStr ''secure.action'') ex_payload
        = (Rejected, Some (ex_ctx\<lparr>trace := [HookRan BeforeMessage 10,
                                               LogMiddlewareError DoubleContinuationError]\<rparr>))"
proof -
  let ?mws = "[[AwaitNext, AwaitNext]]"
  let ?sys = "ex_system ?mws (ex_open_route [] Ok) Ok"
  let ?sys' = "ex_system [] (ex_open_route ?mws Ok) Ok"
  let ?ty = "JStr ''secure.action''"
  let ?c1 = "ex_ctx\<lparr>trace := [HookRan BeforeMessage 10]\<rparr>"
  have h1: "(1::int) \<le> 1" by simp
  have h2: "next_mw ?mws 1 (0, ex_ctx) = (None, (1, ex_ctx))
            \<and> exec ?mws 0 [Effect 12] (1, ex_ctx) = (None, (1, log (Mark 12) ex_ctx))"
    by (simp add: next_mw_def)
  have h3: "exec ?mws 0 ([] @ AwaitNext # [Effect 12]) (0, ex_ctx) = (None, (1, log (Mark 12) ex_ctx))"
    by simp
  have h4: "next_mw ?mws 0 (- 1, ex_ctx) = (Some DoubleContinuationError, (1, ex_ctx))"
    by (simp add: next_mw_def)
  have h5: "createContext (transport ?sys) ?ty ex_payload = Inr ex_ctx
        \<and> next_mw (globalMiddleware ?sys) 0 (- 1, runHooks (lifecycleHooks ?sys) BeforeMessage None ex_ctx)
              = (Some DoubleContinuationError, (1, ?c1))"
    by (simp add: ex_createContext ex_before) (simp add: ex_system_def next_mw_def)
  have h6: "createContext (transport ?sys') ?ty ex_payload = Inr ex_ctx
        \<and> runMiddleware (globalMiddleware ?sys') (runHooks (lifecycleHooks ?sys') BeforeMessage None ex_ctx)
              = (True, ?c1)
        \<and> routes ?sys' ?ty = Some (ex_open_route ?mws Ok)
        \<and> runGuards (debug ?sys') (guards (ex_open_route ?mws Ok)) ?c1 = (True, ?c1)
        \<and> next_mw (middleware (ex_open_route ?mws Ok)) 0 (- 1, ?c1) = (Some DoubleContinuationError, (1, ?c1))"
    by (simp add: ex_createContext ex_before)
       (simp add: ex_system_def ex_open_route_def runMiddleware_def next_mw_def ex_ctx_def)
  from second_continuation_call [where j = 1 and i = 1 and mws = ?mws and c = ex_ctx
      and s = "(0, ex_ctx)" and ?r1.0 = None and ?s1.0 = "(1, ex_ctx)" and k = 0 and cs = "[Effect 12]"
      and ?r2.0 = None and ?s2.0 = "(1, log (Mark 12) ex_ctx)"
      and pre = "[]" and mid = "[Effect 12]" and post = "[Effect 13]" and t = "(0, ex_ctx)"
      and ?t1.0 = "(1, log (Mark 12) ex_ctx)"
      and e = DoubleContinuationError and i' = 1 and c' = ex_ctx
      and sys = ?sys and ty = ?ty and pl = ex_payload and ?c0.0 = ex_ctx
      and ?e0.0 = DoubleContinuationError and ?i0.0 = 1 and cg = ?c1
      and sys' = ?sys' and ty' = ?ty and pl' = ex_payload and c0' = ex_ctx and c1' = ?c1
      and rt = "ex_open_route ?mws Ok" and c2' = ?c1
      and ?e1.0 = DoubleContinuationError and ?i1.0 = 1 and cr = ?c1]
    h1 h2 h3 h4 h5 h6
  show ?thesis by (simp add: log_def)
qed

text \<open>
  The claim as stated fails: a global middleware that awaits its continuation twice
  leaves the message in \<open>Rejected\<close>, not \<open>Errored\<close>; the registered \<^verbatim>\<open>onError\<close> hook
  and the error handler are not run.
\<close>

theorem second_continuation_call_counterexample:
  "onMessage (ex_system [[AwaitNext, AwaitNext]] (ex_open_route [] Ok) Ok) (JStr ''secure.action'') ex_payload
     = (Rejected, Some (ex_ctx\<lparr>trace := [HookRan BeforeMessage 10,
                                            LogMiddlewareError DoubleContinuationError]\<rparr>))
   \<and> lifecycleHooks (ex_system [[AwaitNext, AwaitNext]] (ex_open_route [] Ok) Ok) OnError = [ex_hook 30 Ok]"
  by (simp add: onMessage_def ex_createContext ex_before tryBlock_def)
     (simp add: ex_system_def runMiddleware_def next_mw_def ex_ctx_def ex_hooks_def log_def)

lemma onMessage_stopped:
  assumes m: "onMessage sys ty pl = (oc, Some cf)" and s: "stopped cf"
  shows "oc = Rejected \<and> (\<forall>ev \<in> set (trace cf). \<not> after_route ev)"
proof -
  from m obtain c0 where cc: "createContext (transport sys) ty pl = Inr c0"
    by (cases "createContext (transport sys) ty pl") (auto simp: onMessage_def)
  let ?c1 = "runHooks (lifecycleHooks sys) BeforeMessage None c0"
  obtain res c2 where t: "tryBlock sys ty ?c1 = (res, c2)"
    by (cases "tryBlock sys ty ?c1") auto
  have "stopped c2"
  proof (cases res)
    case (Inl err)
    with m cc t s show ?thesis
      by (auto simp: onMessage_def Let_def split: hres.splits)
  next
    case (Inr o')
    with m cc t s show ?thesis by (auto simp: onMessage_def)
  qed
  with tryBlock_stopped [of sys ty ?c1] t have r: "res = Inr Rejected" by simp
  with m cc t have oc: "oc = Rejected" and cf: "cf = c2" by (auto simp: onMessage_def)
  have o1: "only (\<lambda>ev. \<not> after_route ev) ?c1"
    by (rule before_only [OF _ _ cc]) simp_all
  have "only (\<lambda>ev. \<not> after_route ev) (snd (tryBlock sys ty ?c1))"
    by (rule tryBlock_only [OF _ _ _ _ _ _ _ o1]) (simp_all add: t r)
  with t cf oc show ?thesis by (simp add: only_def list_all_iff)
qed

text \<open>
  C2, as amended. \<^verbatim>\<open>ctx.stop()\<close> only sets the flag: the code that follows it in the
  calling middleware (a later \<^verbatim>\<open>await next()\<close> included, which runs the middleware at
  the next index) and the code of the middleware already started run exactly as they
  would on a context that is not stopped, with the same effects and the same exception,
  if any. The flag decides the verdict: a chain that ends on a stopped context makes the
  runner report \<^verbatim>\<open>false\<close>, and a message whose context is stopped at the end of its
  processing has ended in \<open>Rejected\<close> without its handler (or an \<^verbatim>\<open>afterMessage\<close>
  hook) being run.
\<close>

theorem stop_keeps_chain_running:
  "exec mws j (CtxStop # cs) (i, c) = with_stop (exec mws j cs (i, c))
   \<and> exec mws j cs (i, c\<lparr>stopped := True\<rparr>) = with_stop (exec mws j cs (i, c))
   \<and> (stopped (snd (runMiddleware mws' c')) \<longrightarrow> \<not> fst (runMiddleware mws' c'))
   \<and> (onMessage sys ty pl = (oc, Some cf) \<and> stopped cf \<longrightarrow>
        oc = Rejected \<and> (\<forall>ev \<in> set (trace cf). \<not> after_route ev))"
proof (intro conjI impI)
  show "exec mws j (CtxStop # cs) (i, c) = with_stop (exec mws j cs (i, c))"
    by (simp add: exec_stop_insensitive)
  show "exec mws j cs (i, c\<lparr>stopped := True\<rparr>) = with_stop (exec mws j cs (i, c))"
    by (rule exec_stop_insensitive)
next
  assume "stopped (snd (runMiddleware mws' c'))"
  with runMiddleware_verdict [of mws' c'] show "\<not> fst (runMiddleware mws' c')" by blast
next
  assume h: "onMessage sys ty pl = (oc, Some cf) \<and> stopped cf"
  then have m: "onMessage sys ty pl = (oc, Some cf)" and s: "stopped cf" by simp_all
  from onMessage_stopped [OF m s] show "oc = Rejected" by simp
  from onMessage_stopped [OF m s] show "\<forall>ev \<in> set (trace cf). \<not> after_route ev" by simp
qed

theorem stop_keeps_chain_running_witness:
  "exec [[CtxStop, AwaitNext, Effect 12], [Effect 13]] 0 [CtxStop, AwaitNext, Effect 12] (0, ex_ctx)
     = (None, (1, ex_ctx\<lparr>stopped := True, trace := [Mark 13, Mark 12]\<rparr>))
   \<and> \<not> fst (runMiddleware [[CtxStop, AwaitNext, Effect 12], [Effect 13]] ex_ctx)
   \<and> onMessage (ex_system [] (ex_open_route [[CtxStop, AwaitNext]] Ok) Ok) (JStr ''secure.action'') ex_payload
       = (Rejected, Some (ex_ctx\<lparr>stopped := True, trace := [HookRan BeforeMessage 10]\<rparr>))
   \<and> \<not> after_route (HookRan BeforeMessage 10)"
proof -
  let ?mws = "[[CtxStop, AwaitNext, Effect 12], [Effect 13]]"
  let ?sys = "ex_system [] (ex_open_route [[CtxStop, AwaitNext]] Ok) Ok"
  let ?cf = "ex_ctx\<lparr>stopped := True, trace := [HookRan BeforeMessage 10]\<rparr>"
  have e: "exec ?mws 0 [AwaitNext, Effect 12] (0, ex_ctx) = (None, (1, ex_ctx\<lparr>trace := [Mark 13, Mark 12]\<rparr>))"
    by (simp add: log_def ex_ctx_def)
  have r: "stopped (snd (runMiddleware ?mws ex_ctx))"
    by (simp add: runMiddleware_def next_mw_def log_def)
  have m: "onMessage ?sys (JStr ''secure.action'') ex_payload = (Rejected, Some ?cf) \<and> stopped ?cf"
    by (simp add: onMessage_def ex_createContext ex_before tryBlock_def)
       (simp add: ex_system_def ex_open_route_def runMiddleware_def next_mw_def ex_ctx_def)
  from stop_keeps_chain_running [where mws = ?mws and j = 0 and cs = "[AwaitNext, Effect 12]"
      and i = 0 and c = ex_ctx and mws' = ?mws and c' = ex_ctx
      and sys = ?sys and ty = "JStr ''secure.action''" and pl = ex_payload and oc = Rejected and cf = ?cf]
    e r m
  show ?thesis by simp
qed

text \<open>
  The claim as stated fails: the first middleware calls \<^verbatim>\<open>ctx.stop()\<close> and then awaits
  its continuation; the middleware at index 1 still runs (\<open>Mark 13\<close>), before the first
  one finishes (\<open>Mark 12\<close>).
\<close>

theorem stop_keeps_chain_running_counterexample:
  "runMiddleware [[CtxStop, AwaitNext, Effect 12], [Effect 13]] ex_ctx
     = (False, ex_ctx\<lparr>stopped := True, trace := [Mark 13, Mark 12]\<rparr>)"
  by (simp add: runMiddleware_def next_mw_def log_def ex_ctx_def)




section \<open>Properties of the local event bus\<close>

lemma indexOf_None: "indexOf xs x = None \<longleftrightarrow> x \<notin> set xs"
  by (induction xs) auto

lemma indexOf_absent: "x \<notin> set xs \<Longrightarrow> indexOf xs x = None"
  by (simp add: indexOf_None)



lemma listeners_of_called [simp]: "listeners_of (b\<lparr>called := t\<rparr>) e = listeners_of b e"
  by (simp add: listeners_of_def)

lemma on_called [simp]: "called (on e l b) = called b"
  by (simp add: on_def Let_def)

lemma on_transportOff [simp]: "transportOff (on e l b) = transportOff b"
  by (simp add: on_def Let_def)

lemma off_called [simp]: "called (snd (off e l b)) = called b"
  by (simp add: off_def Let_def split: option.splits hres.splits)

lemma off_transportOff [simp]: "transportOff (snd (off e l b)) = transportOff b"
  by (simp add: off_def Let_def split: option.splits hres.splits)

lemma run_callback_called [simp]: "called (snd (run_callback body b)) = called b"
proof (induction body b rule: run_callback.induct)
  case (2 e l acts b)
  then show ?case
    using off_called [of e l b] by (cases "off e l b") (auto split: option.splits)
qed simp_all

lemma run_callback_transportOff [simp]: "transportOff (snd (run_callback body b)) = transportOff b"
proof (induction body b rule: run_callback.induct)
  case (2 e l acts b)
  then show ?case
    using off_transportOff [of e l b] by (cases "off e l b") (auto split: option.splits)
qed simp_all

lemma on_other: "e \<noteq> event \<Longrightarrow> listeners_of (on e l b) event = listeners_of b event"
  by (simp add: on_def listeners_of_def Let_def)

lemma off_returns: "notify_ok (transportOff b) e l \<Longrightarrow> fst (off e l b) = None"
  by (auto simp: off_def notify_ok_def Let_def split: option.splits hres.splits)

lemma off_other: "e \<noteq> event \<or> l \<notin> set (listeners_of b event) \<Longrightarrow>
    listeners_of (snd (off e l b)) event = listeners_of b event"
  by (auto simp: off_def listeners_of_def indexOf_absent Let_def split: option.splits hres.splits)


lemma run_callback_Off:
  "notify_ok (transportOff b) e l \<Longrightarrow>
   run_callback (Off e l # acts) b = run_callback acts (snd (off e l b))"
  using off_returns [of b e l] by (cases "off e l b") auto

lemma run_callback_harmless:
  "harmless (transportOff b) event (listeners_of b event) body \<Longrightarrow>
   fst (run_callback body b) = None \<and> listeners_of (snd (run_callback body b)) event = listeners_of b event"
proof (induction body arbitrary: b)
  case Nil
  show ?case by simp
next
  case (Cons a acts)
  show ?case
  proof (cases a)
    case (Off e l)
    with Cons.prems have n: "notify_ok (transportOff b) e l"
      and o: "e \<noteq> event \<or> l \<notin> set (listeners_of b event)"
      and h: "harmless (transportOff b) event (listeners_of b event) acts"
      by (simp_all add: harmless_def)
    from off_other [OF o] have l: "listeners_of (snd (off e l b)) event = listeners_of b event" .
    with h have "harmless (transportOff (snd (off e l b))) event (listeners_of (snd (off e l b)) event) acts"
      by simp
    from Cons.IH [OF this] l Off n show ?thesis by (simp add: run_callback_Off del: run_callback.simps)
  next
    case (On e l)
    with Cons.prems have o: "e \<noteq> event"
      and h: "harmless (transportOff b) event (listeners_of b event) acts"
      by (simp_all add: harmless_def)
    from on_other [OF o] have l: "listeners_of (on e l b) event = listeners_of b event" .
    with h have "harmless (transportOff (on e l b)) event (listeners_of (on e l b) event) acts" by simp
    from Cons.IH [OF this] l On show ?thesis by simp
  next
    case (ThrowL m)
    with Cons.prems show ?thesis by (simp add: harmless_def)
  qed
qed

lemma emitLoop_done:
  "length (listeners_of b event) \<le> k \<Longrightarrow> emitLoop code event d k b = Some (None, b)"
  by (subst emitLoop.simps) (simp add: listeners_of_def Let_def)

lemma emitLoop_step:
  "k < length (listeners_of b event) \<Longrightarrow>
   emitLoop code event d k b =
     (case run_callback (code (listeners_of b event ! k))
             (b\<lparr>called := called b @ [(listeners_of b event ! k, d)]\<rparr>) of
        (Some err, b') \<Rightarrow> Some (Some err, b')
      | (None, b') \<Rightarrow> emitLoop code event d (k + 1) b')"
  by (subst emitLoop.simps) (simp add: listeners_of_def Let_def)


lemma run_callback_append:
  "run_callback (xs @ ys) b =
     (case run_callback xs b of (None, b') \<Rightarrow> run_callback ys b' | (Some e, b') \<Rightarrow> (Some e, b'))"
  by (induction xs b rule: run_callback.induct) (auto split: prod.splits option.splits)








lemma emitLoop_harmless_range:
  "listeners_of b event = cbs \<Longrightarrow> k \<le> n \<Longrightarrow> n \<le> length cbs \<Longrightarrow>
   (\<forall>m. k \<le> m \<and> m < n \<longrightarrow> harmless (transportOff b) event cbs (code (cbs ! m))) \<Longrightarrow>
   \<exists>b'. emitLoop code event d k b = emitLoop code event d n b'
        \<and> listeners_of b' event = cbs \<and> transportOff b' = transportOff b
        \<and> called b' = called b @ calls d (take (n - k) (drop k cbs))"
proof (induction "n - k" arbitrary: k b)
  case 0
  then show ?case by (auto simp: calls_def)
next
  case (Suc x)
  then have kn: "k < n" and kl: "k < length (listeners_of b event)" by auto
  let ?b0 = "b\<lparr>called := called b @ [(cbs ! k, d)]\<rparr>"
  let ?r = "run_callback (code (cbs ! k)) ?b0"
  from Suc.prems kn have "harmless (transportOff ?b0) event (listeners_of ?b0 event) (code (cbs ! k))"
    by simp
  from run_callback_harmless [OF this] Suc.prems(1)
  have r: "fst ?r = None" and l: "listeners_of (snd ?r) event = cbs" by simp_all
  have c: "called (snd ?r) = called b @ [(cbs ! k, d)]" by simp
  have t: "transportOff (snd ?r) = transportOff b" by simp
  from emitLoop_step [OF kl, of code d] r Suc.prems(1)
  have step: "emitLoop code event d k b = emitLoop code event d (k + 1) (snd ?r)"
    by (cases ?r) auto
  from Suc.hyps(2) have x: "x = n - (k + 1)" by simp
  from Suc.prems kn t
  have h: "\<forall>m. k + 1 \<le> m \<and> m < n \<longrightarrow> harmless (transportOff (snd ?r)) event cbs (code (cbs ! m))"
    by simp
  from Suc.hyps(1) [OF x l _ Suc.prems(3) h] kn obtain b' where
    b': "emitLoop code event d (k + 1) (snd ?r) = emitLoop code event d n b'"
      "listeners_of b' event = cbs" "transportOff b' = transportOff (snd ?r)"
      "called b' = called (snd ?r) @ calls d (take (n - (k + 1)) (drop (k + 1) cbs))"
    by auto
  from kn Suc.prems(3) have "take (n - k) (drop k cbs) = cbs ! k # take (n - (k + 1)) (drop (k + 1) cbs)"
    by (metis Cons_nth_drop_Suc Suc_diff_Suc Suc_eq_plus1 less_le_trans take_Suc_Cons)
  with b' c t step show ?case by (auto simp: calls_def)
qed

lemma emit_all_harmless:
  assumes l: "listeners_of b event = cbs"
    and h: "\<forall>cb \<in> set cbs. harmless (transportOff b) event cbs (code cb)"
  shows "\<exists>b'. internalEmit code event d b = Some (None, b')
            \<and> listeners_of b' event = cbs \<and> called b' = called b @ calls d cbs"
proof -
  from h have "\<forall>m. 0 \<le> m \<and> m < length cbs \<longrightarrow> harmless (transportOff b) event cbs (code (cbs ! m))"
    by simp
  from emitLoop_harmless_range [OF l _ _ this, of d] obtain b' where
    b': "emitLoop code event d 0 b = emitLoop code event d (length cbs) b'"
      "listeners_of b' event = cbs" "called b' = called b @ calls d cbs"
    by auto
  from b'(2) have "emitLoop code event d (length cbs) b' = Some (None, b')"
    by (intro emitLoop_done) simp
  with b' show ?thesis by (auto simp: internalEmit_def)
qed

lemma emit_throwing:
  assumes l: "listeners_of b event = pre @ t # post"
    and h: "\<forall>cb \<in> set pre. harmless (transportOff b) event (pre @ t # post) (code cb)"
    and t: "code t = qs @ ThrowL m # rest" and q: "harmless (transportOff b) event (pre @ t # post) qs"
  shows "\<exists>b'. internalEmit code event d b = Some (Some (Thrown m), b')
            \<and> called b' = called b @ calls d (pre @ [t])"
proof -
  let ?cbs = "pre @ t # post"
  from h have "\<forall>m. 0 \<le> m \<and> m < length pre \<longrightarrow> harmless (transportOff b) event ?cbs (code (?cbs ! m))"
    by (simp add: nth_append)
  from emitLoop_harmless_range [OF l _ _ this, of d] obtain b0 where
    b0: "emitLoop code event d 0 b = emitLoop code event d (length pre) b0"
      "listeners_of b0 event = ?cbs" "called b0 = called b @ calls d pre"
      "transportOff b0 = transportOff b"
    by auto
  let ?b1 = "b0\<lparr>called := called b0 @ [(t, d)]\<rparr>"
  from q b0(2,4) have "harmless (transportOff ?b1) event (listeners_of ?b1 event) qs" by simp
  from run_callback_harmless [OF this]
  have r: "run_callback (code t) ?b1 = (Some (Thrown m), snd (run_callback qs ?b1))"
    by (cases "run_callback qs ?b1") (simp add: t run_callback_append)
  from b0(2) have "length pre < length (listeners_of b0 event)" by simp
  from emitLoop_step [OF this, of code d] b0(2) r
  have "emitLoop code event d (length pre) b0 = Some (Some (Thrown m), snd (run_callback qs ?b1))"
    by simp
  moreover have "called (snd (run_callback qs ?b1)) = called b @ calls d (pre @ [t])"
    by (simp add: b0(3) calls_def)
  ultimately show ?thesis using b0(1) by (auto simp: internalEmit_def)
qed


lemma ex_bus_listeners [simp]: "listeners_of (ex_bus ls) ''evt'' = ls"
  by (simp add: ex_bus_def listeners_of_def)

lemma ex_bus_transportOff [simp]: "transportOff (ex_bus ls) = None"
  by (simp add: ex_bus_def)

text \<open>
  C4, as amended. \<^verbatim>\<open>emit\<close> calls the callbacks registered for the event one after the
  other, in registration order, before it returns: when no callback throws (and none
  changes the event's listener list), every registered callback is called once, in
  order. An exception thrown by a callback is not caught: it leaves \<^verbatim>\<open>emit\<close>, and the
  callbacks registered after the throwing one are not called.
\<close>

theorem emit_in_order_until_exception:
  "(listeners_of b event = cbs \<and> (\<forall>cb \<in> set cbs. harmless (transportOff b) event cbs (code cb)) \<longrightarrow>
      (\<exists>b'. internalEmit code event d b = Some (None, b') \<and> called b' = called b @ calls d cbs))
   \<and> (listeners_of b1 event1 = pre @ t # post
        \<and> (\<forall>cb \<in> set pre. harmless (transportOff b1) event1 (pre @ t # post) (code1 cb))
        \<and> code1 t = qs @ ThrowL m # rest \<and> harmless (transportOff b1) event1 (pre @ t # post) qs \<longrightarrow>
      (\<exists>b'. internalEmit code1 event1 d1 b1 = Some (Some (Thrown m), b')
            \<and> called b' = called b1 @ calls d1 (pre @ [t])))"
proof (intro conjI impI)
  assume "listeners_of b event = cbs \<and> (\<forall>cb \<in> set cbs. harmless (transportOff b) event cbs (code cb))"
  then have l: "listeners_of b event = cbs"
    and h: "\<forall>cb \<in> set cbs. harmless (transportOff b) event cbs (code cb)"
    by simp_all
  from emit_all_harmless [OF l h, of d]
  show "\<exists>b'. internalEmit code event d b = Some (None, b') \<and> called b' = called b @ calls d cbs"
    by blast
next
  assume "listeners_of b1 event1 = pre @ t # post
        \<and> (\<forall>cb \<in> set pre. harmless (transportOff b1) event1 (pre @ t # post) (code1 cb))
        \<and> code1 t = qs @ ThrowL m # rest \<and> harmless (transportOff b1) event1 (pre @ t # post) qs"
  then have l: "listeners_of b1 event1 = pre @ t # post"
    and h: "\<forall>cb \<in> set pre. harmless (transportOff b1) event1 (pre @ t # post) (code1 cb)"
    and t: "code1 t = qs @ ThrowL m # rest" and q: "harmless (transportOff b1) event1 (pre @ t # post) qs"
    by simp_all
  from emit_throwing [OF l h t q, of d1]
  show "\<exists>b'. internalEmit code1 event1 d1 b1 = Some (Some (Thrown m), b')
            \<and> called b' = called b1 @ calls d1 (pre @ [t])" .
qed

theorem emit_in_order_until_exception_witness:
  "internalEmit (ex_thrower 9) ''evt'' JNull (ex_bus [4, 5, 6])
     = Some (None, \<lparr>eventListeners = [''evt'' \<mapsto> [4, 5, 6]], transportOff = None,
                     called = [(4, JNull), (5, JNull), (6, JNull)]\<rparr>)
   \<and> internalEmit (ex_thrower 5) ''evt'' JNull (ex_bus [4, 5, 6])
     = Some (Some (Thrown ''boom''), \<lparr>eventListeners = [''evt'' \<mapsto> [4, 5, 6]], transportOff = None,
                                       called = [(4, JNull), (5, JNull)]\<rparr>)"
proof -
  have h1: "listeners_of (ex_bus [4, 5, 6]) ''evt'' = [4, 5, 6]
      \<and> (\<forall>cb \<in> set [4, 5, 6]. harmless (transportOff (ex_bus [4, 5, 6])) ''evt'' [4, 5, 6] (ex_thrower 9 cb))"
    by (simp add: ex_thrower_def harmless_def)
  have h2: "listeners_of (ex_bus [4, 5, 6]) ''evt'' = [4] @ 5 # [6]
        \<and> (\<forall>cb \<in> set [4]. harmless (transportOff (ex_bus [4, 5, 6])) ''evt'' ([4] @ 5 # [6]) (ex_thrower 5 cb))
        \<and> ex_thrower 5 5 = [] @ ThrowL ''boom'' # []
        \<and> harmless (transportOff (ex_bus [4, 5, 6])) ''evt'' ([4] @ 5 # [6]) []"
    by (simp add: ex_thrower_def harmless_def)
  from emit_in_order_until_exception [where b = "ex_bus [4, 5, 6]" and event = "''evt''"
      and cbs = "[4, 5, 6]" and code = "ex_thrower 9" and d = JNull
      and ?b1.0 = "ex_bus [4, 5, 6]" and ?event1.0 = "''evt''" and pre = "[4]" and t = 5
      and post = "[6]" and ?code1.0 = "ex_thrower 5" and qs = "[]" and m = "''boom''"
      and rest = "[]" and ?d1.0 = JNull] h1 h2
  show ?thesis
    by (simp add: internalEmit_def emitLoop_step emitLoop_done ex_thrower_def calls_def)
       (simp add: ex_bus_def)
qed

text \<open>
  The claim as stated fails: the first of two listeners throws; the exception leaves
  \<^verbatim>\<open>emit\<close> and the second listener is not called.
\<close>

theorem emit_in_order_until_exception_counterexample:
  "internalEmit (ex_thrower 4) ''evt'' JNull (ex_bus [4, 5])
     = Some (Some (Thrown ''boom''),
             \<lparr>eventListeners = [''evt'' \<mapsto> [4, 5]], transportOff = None, called = [(4, JNull)]\<rparr>)"
  by (simp add: internalEmit_def emitLoop_step ex_thrower_def) (simp add: ex_bus_def)

subsection \<open>Removal during an emission (C5)\<close>






section \<open>Exceptions during a message (C6)\<close>








end
